theory Spec2Isabelle
  imports Complex_Main "HOL-Library.Word"
begin

unbundle bit_operations_syntax

section \<open>Numbers, constants and utilities\<close>

text \<open>
  The server (the third, current program text of \<^verbatim>\<open>server.js\<close>, from the ES-module imports
  on) computes with JavaScript numbers. They are modelled as \<^typ>\<open>real\<close>: rounding is not
  part of the model, and NaN and the infinities are modelled where a request can bring
  them in, on the path of an aim (section \<open>Numbers that are not finite\<close>). The variable
  of the seeded generator is modelled with the rounding of its addition, and the 32-bit
  integer operations on \<^typ>\<open>32 word\<close>. The model covers \<^verbatim>\<open>tickRoom\<close> and what it
  calls, and the handlers of \<^verbatim>\<open>/join\<close> and \<^verbatim>\<open>/input\<close>; the creation of a room
  (\<^verbatim>\<open>makeCode\<close>, \<^verbatim>\<open>hashSeed\<close>, \<^verbatim>\<open>makeRoom\<close>) and \<^verbatim>\<open>/state\<close> are outside it.
\<close>

definition TICK_RATE :: real where "TICK_RATE = 20"
definition DT :: real where "DT = 1 / TICK_RATE"
definition WORLD :: real where "WORLD = 5200"
definition PELLET_TARGET :: nat where "PELLET_TARGET = 700"
definition PLAYER_TTL :: real where "PLAYER_TTL = 12"

definition clamp :: "real \<Rightarrow> real \<Rightarrow> real \<Rightarrow> real" where
  "clamp v lo hi = max lo (min hi v)"

text \<open>
  \<^verbatim>\<open>Math.hypot\<close> on two arguments, and \<^verbatim>\<open>normalize(x, y)\<close>, which is
  \<open>normalize2D\<close> here.
\<close>

definition hypot :: "real \<Rightarrow> real \<Rightarrow> real" where
  "hypot a b = sqrt (a\<^sup>2 + b\<^sup>2)"

definition normalize2D :: "real \<Rightarrow> real \<Rightarrow> real \<times> real" where
  "normalize2D a b = (let L = hypot a b in if L < 1 / 1000000 then (0, 0) else (a / L, b / L))"

text \<open>
  \<^verbatim>\<open>mulberry32(seed)\<close> returns a closure over the variable \<^verbatim>\<open>seed\<close>. The model is the
  closure's body as a function of that variable: it returns the drawn number and the
  variable's new value. \<^verbatim>\<open>seed += 0x6D2B79F5\<close> is an addition of JavaScript numbers: it
  does not wrap, and its result is the nearest double of the sum. The variable is a
  \<^typ>\<open>nat\<close>, and \<open>roundDouble n\<close> is the double nearest to the natural number \<open>n\<close>: \<open>n\<close>
  itself below \<open>2^53\<close>, and from there on the nearest multiple of \<open>ulp n\<close>, the spacing of
  the doubles around \<open>n\<close>, a tie going to the even multiple. The bitwise operators and
  \<^verbatim>\<open>Math.imul\<close> work on the low 32 bits.
\<close>

function ulp :: "nat \<Rightarrow> nat" where
  "ulp n = (if n < 2 ^ 53 then 1 else 2 * ulp (n div 2))"
  by pat_completeness auto
termination
  by (relation "measure (\<lambda>n. n)") auto

declare ulp.simps [simp del]

definition roundDouble :: "nat \<Rightarrow> nat" where
  "roundDouble n =
     (let u = ulp n; q = n div u; r = n mod u
      in if 2 * r > u \<or> (2 * r = u \<and> odd q) then (q + 1) * u else q * u)"

definition mulberry32 :: "nat \<Rightarrow> real \<times> nat" where
  "mulberry32 seed =
     (let seed' = roundDouble (seed + 0x6D2B79F5);
          t0 = (word_of_nat seed' :: 32 word);
          t1 = (t0 XOR drop_bit 15 t0) * (t0 OR 1);
          t2 = t1 XOR (t1 + (t1 XOR drop_bit 7 t1) * (t1 OR 61))
      in (real (unat (t2 XOR drop_bit 14 t2)) / 4294967296, seed'))"

text \<open>
  \<^verbatim>\<open>Math.random()\<close> is not seeded by the program. Its outcomes are an input of the model:
  a stream of numbers, read from the front.
\<close>

type_synonym random = "nat \<Rightarrow> real"

definition Math_random :: "random \<Rightarrow> real \<times> random" where
  "Math_random mr = (mr 0, \<lambda>n. mr (Suc n))"

section \<open>Entities\<close>

text \<open>
  A blob \<^verbatim>\<open>{x, y, vx, vy, mass, r, splitTimer}\<close>; the fields \<^verbatim>\<open>x, y, vx, vy, r\<close> are
  \<open>posx, posy, velx, vely, rad\<close> here.
\<close>

record blob =
  posx :: real
  posy :: real
  velx :: real
  vely :: real
  mass :: real
  rad :: real
  splitTimer :: real

record colour =
  red :: int
  green :: int
  blue :: int

record agent =
  aid :: string
  name :: string
  isBot :: bool
  col :: colour
  dead :: bool
  aimX :: real
  aimY :: real
  boost :: bool
  lastSeen :: real
  blobs :: "blob list"

text \<open>A pellet \<^verbatim>\<open>{x, y, r, v}\<close> and a virus \<^verbatim>\<open>{x, y, r}\<close>.\<close>

record pellet =
  pelx :: real
  pely :: real
  pelr :: real
  pelv :: real

record virus =
  virx :: real
  viry :: real
  virr :: real

text \<open>
  \<^verbatim>\<open>room.agents\<close> is a JavaScript \<^verbatim>\<open>Map\<close>: it iterates in insertion order, and
  \<^verbatim>\<open>set\<close> on a key that is present replaces the value where it stands. It is an
  association list here. \<^verbatim>\<open>room.rng\<close> is the generator's variable.
\<close>

record room =
  code :: string
  seed :: nat
  rng :: nat
  maxPlayers :: real
  bots :: real
  clock :: real
  agents :: "(string \<times> agent) list"
  pellets :: "pellet list"
  viruses :: "virus list"

fun mapSet :: "string \<Rightarrow> agent \<Rightarrow> (string \<times> agent) list \<Rightarrow> (string \<times> agent) list" where
  "mapSet k v [] = [(k, v)]"
| "mapSet k v ((k', v') # m) = (if k = k' then (k, v) # m else (k', v') # mapSet k v m)"

definition mapGet :: "(string \<times> agent) list \<Rightarrow> string \<Rightarrow> agent option" where
  "mapGet m k = map_of m k"

definition mapValues :: "(string \<times> agent) list \<Rightarrow> agent list" where
  "mapValues m = map snd m"

text \<open>\<^verbatim>\<open>xs.splice(i, 1)\<close>: nothing is removed when \<open>i\<close> is not an index of \<open>xs\<close>.\<close>

definition removeAt :: "nat \<Rightarrow> 'a list \<Rightarrow> 'a list" where
  "removeAt i xs = take i xs @ drop (Suc i) xs"

section \<open>Game core\<close>

definition agentMass :: "agent \<Rightarrow> real" where
  "agentMass a = foldl (\<lambda>s b. s + mass b) 0 (blobs a)"

definition canEat :: "real \<Rightarrow> real \<Rightarrow> bool" where
  "canEat er pr = (er > pr * 1.12)"

definition canEngulf :: "real \<Rightarrow> real \<Rightarrow> real \<Rightarrow> real \<Rightarrow> real \<Rightarrow> real \<Rightarrow> bool" where
  "canEngulf ex ey er px py pr = (let d = hypot (ex - px) (ey - py) in d < er - pr * 0.65)"

definition baseSpeed :: "real \<Rightarrow> real \<Rightarrow> bool \<Rightarrow> real" where
  "baseSpeed r totalMass boosting =
     (let sizePenalty = max 0.26 (1.0 - r / 215);
          softCap = 1400;
          capPenalty = (if totalMass > softCap
                        then (let over = (totalMass - softCap) / softCap
                              in clamp (1.0 - over * 0.55) 0.55 1.0)
                        else 1.0);
          v = 260 * sizePenalty * capPenalty
      in if boosting then v * 1.55 else v)"

definition grow :: "blob \<Rightarrow> real \<Rightarrow> blob" where
  "grow b amount =
     (let softCap = 1400;
          softCapMinPenalty = 0.25;
          penalty = (if mass b > softCap then clamp (softCap / mass b) softCapMinPenalty 1.0
                     else 1.0);
          gain = amount * penalty
      in b\<lparr>mass := mass b + gain, rad := rad b + gain * 0.22\<rparr>)"

text \<open>
  \<^verbatim>\<open>spawnAgent(id, name, isBot, rng)\<close>. The generator is drawn from in the order of the
  program text: mass and radius (bots only), the three colour channels, then the position.
  \<open>now\<close> is \<^verbatim>\<open>Date.now() / 1000\<close>.
\<close>

definition spawnAgent :: "string \<Rightarrow> string \<Rightarrow> bool \<Rightarrow> nat \<Rightarrow> real \<Rightarrow> agent \<times> nat" where
  "spawnAgent ident nm bt g now =
     (let (startMass, g1) = (if bt then (let (u, g') = mulberry32 g in (32 + u * 70, g'))
                             else (55, g));
          (startR, g2) = (if bt then (let (u, g') = mulberry32 g1 in (22 + u * 20, g'))
                          else (36, g1));
          (ur, g3) = mulberry32 g2;
          (ug, g4) = mulberry32 g3;
          (ub, g5) = mulberry32 g4;
          (ux, g6) = mulberry32 g5;
          (uy, g7) = mulberry32 g6
      in (\<lparr>aid = ident, name = nm, isBot = bt,
           col = \<lparr>red = \<lfloor>70 + ur * 185\<rfloor>, green = \<lfloor>70 + ug * 185\<rfloor>,
                  blue = \<lfloor>70 + ub * 185\<rfloor>\<rparr>,
           dead = False, aimX = 0, aimY = 0, boost = False, lastSeen = now,
           blobs = [\<lparr>posx = 280 + ux * (WORLD - 560), posy = 280 + uy * (WORLD - 560),
                     velx = 0, vely = 0, mass = startMass, rad = startR,
                     splitTimer = 999\<rparr>]\<rparr>, g7))"

section \<open>The tick\<close>

subsection \<open>Removal of inactive humans\<close>

text \<open>\<^verbatim>\<open>a.lastSeen || now\<close> is \<open>now\<close> when \<open>lastSeen\<close> is 0.\<close>

definition inactive :: "real \<Rightarrow> agent \<Rightarrow> bool" where
  "inactive now a =
     (\<not> isBot a \<and> now - (if lastSeen a = 0 then now else lastSeen a) > PLAYER_TTL)"

definition removeInactive :: "real \<Rightarrow> room \<Rightarrow> room" where
  "removeInactive now rm = rm\<lparr>agents := filter (\<lambda>(k, a). \<not> inactive now a) (agents rm)\<rparr>"

subsection \<open>Bot AI\<close>

text \<open>
  The scan state is \<^verbatim>\<open>(bestThreat, bestThreatD, bestPrey, bestPreyD)\<close>; \<^verbatim>\<open>null\<close> is
  \<open>None\<close>. \<open>considerBlob\<close> is the body of the loop over \<^verbatim>\<open>o.blobs\<close>.
\<close>

type_synonym scan = "blob option \<times> real \<times> blob option \<times> real"

definition considerBlob :: "blob \<Rightarrow> scan \<Rightarrow> blob \<Rightarrow> scan" where
  "considerBlob b st ob =
     (case st of (bestThreat, bestThreatD, bestPrey, bestPreyD) \<Rightarrow>
        (let d = hypot (posx b - posx ob) (posy b - posy ob)
         in if d < 900
            then (let (bt, btd) = (if rad ob > rad b * 1.10 \<and> d < bestThreatD
                                   then (Some ob, d) else (bestThreat, bestThreatD));
                      (bp, bpd) = (if rad b > rad ob * 1.20 \<and> d < bestPreyD
                                   then (Some ob, d) else (bestPrey, bestPreyD))
                  in (bt, btd, bp, bpd))
            else st))"

definition considerAgent :: "agent \<Rightarrow> blob \<Rightarrow> scan \<Rightarrow> agent \<Rightarrow> scan" where
  "considerAgent a b st ag =
     (if aid ag = aid a \<or> dead ag then st else foldl (considerBlob b) st (blobs ag))"

definition scanAgents :: "agent \<Rightarrow> blob \<Rightarrow> agent list \<Rightarrow> scan" where
  "scanAgents a b ags = foldl (considerAgent a b) (None, 1000000000, None, 1000000000) ags"

text \<open>
  The body of the loop over the agents, for one agent \<open>a\<close>: the other agents \<open>ags\<close> and the
  pellets are read, the room's generator \<open>g\<close> and \<^verbatim>\<open>Math.random\<close> are drawn from.
  \<^verbatim>\<open>room.pellets[i]\<close> is \<^verbatim>\<open>undefined\<close> when the list is empty, and the aim stays 0.
\<close>

definition setAim :: "agent \<Rightarrow> real \<Rightarrow> real \<Rightarrow> bool \<Rightarrow> agent" where
  "setAim a ax ay bst =
     (let n = normalize2D ax ay in a\<lparr>aimX := fst n, aimY := snd n, boost := bst\<rparr>)"

definition botAgent :: "agent list \<Rightarrow> pellet list \<Rightarrow> agent \<Rightarrow> nat \<Rightarrow> random
    \<Rightarrow> agent \<times> nat \<times> random" where
  "botAgent ags pels a g mr =
     (if dead a \<or> \<not> isBot a then (a, g, mr)
      else case blobs a of
        [] \<Rightarrow> (a, g, mr)
      | b # _ \<Rightarrow>
         (case scanAgents a b ags of (bestThreat, bestThreatD, bestPrey, bestPreyD) \<Rightarrow>
           (case bestThreat of
              Some th \<Rightarrow> (setAim a (posx b - posx th) (posy b - posy th) False, g, mr)
            | None \<Rightarrow>
               (case bestPrey of
                  Some pr \<Rightarrow>
                    (let (u, mr') = Math_random mr
                     in (setAim a (posx pr - posx b) (posy pr - posy b) (u < 0.20), g, mr'))
                | None \<Rightarrow>
                    (let (u, g') = mulberry32 g;
                         i = nat \<lfloor>u * real (length pels)\<rfloor>
                     in if i < length pels
                        then (setAim a (pelx (pels ! i) - posx b) (pely (pels ! i) - posy b)
                                False, g', mr)
                        else (setAim a 0 0 False, g', mr))))))"

definition botAIstep :: "room \<times> random \<Rightarrow> nat \<Rightarrow> room \<times> random" where
  "botAIstep st i =
     (case st of (rm, mr) \<Rightarrow>
        (case botAgent (mapValues (agents rm)) (pellets rm) (snd (agents rm ! i)) (rng rm) mr of
           (a', g', mr') \<Rightarrow>
             (rm\<lparr>agents := (agents rm)[i := (fst (agents rm ! i), a')], rng := g'\<rparr>, mr')))"

definition botAI :: "room \<Rightarrow> random \<Rightarrow> room \<times> random" where
  "botAI rm mr = foldl botAIstep (rm, mr) [0..<length (agents rm)]"

subsection \<open>Movement and decay\<close>

text \<open>
  The body of the loop over \<^verbatim>\<open>a.blobs\<close> in two parts: the displacement along the aim with
  the clamp to the world (\<open>moveClamp\<close>), then the knockback displacement, the decay of
  velocity, mass and radius and the boost cost (\<open>knockDecay\<close>). \<open>tot\<close> is
  \<^verbatim>\<open>agentMass(a)\<close>, taken once before the loop.
\<close>

definition moveClamp :: "agent \<Rightarrow> real \<Rightarrow> blob \<Rightarrow> blob" where
  "moveClamp a tot b =
     (let v = baseSpeed (rad b) tot (boost a);
          x1 = posx b + aimX a * v * DT;
          y1 = posy b + aimY a * v * DT
      in b\<lparr>posx := clamp x1 (rad b) (WORLD - rad b),
            posy := clamp y1 (rad b) (WORLD - rad b)\<rparr>)"

definition knockDecay :: "agent \<Rightarrow> real \<Rightarrow> blob \<Rightarrow> blob" where
  "knockDecay a tot b =
     (let b1 = b\<lparr>posx := posx b + velx b * DT, posy := posy b + vely b * DT,
                 velx := velx b * (1 - clamp (DT * 3.8) 0 1),
                 vely := vely b * (1 - clamp (DT * 3.8) 0 1),
                 splitTimer := splitTimer b + DT\<rparr>;
          decay = (if isBot a then 0.16 else 0.22) * DT;
          b2 = b1\<lparr>mass := max 10 (mass b1 - decay), rad := max 14 (rad b1 - decay * 0.08)\<rparr>
      in if \<not> isBot a \<and> boost a
         then (let d = 1.75 * DT * (mass b2 / max 1 tot)
               in b2\<lparr>mass := max 10 (mass b2 - d), rad := max 14 (rad b2 - d * 0.12)\<rparr>)
         else b2)"

definition moveBlob :: "agent \<Rightarrow> real \<Rightarrow> blob \<Rightarrow> blob" where
  "moveBlob a tot b = knockDecay a tot (moveClamp a tot b)"

definition moveAgent :: "agent \<Rightarrow> agent" where
  "moveAgent a =
     (if dead a then a
      else (let tot = agentMass a in a\<lparr>blobs := map (moveBlob a tot) (blobs a)\<rparr>))"

definition movement :: "room \<Rightarrow> room" where
  "movement rm = rm\<lparr>agents := map (\<lambda>(k, a). (k, moveAgent a)) (agents rm)\<rparr>"

subsection \<open>Pellets\<close>

text \<open>
  The loop over the pellets runs from the last index down and removes what is eaten, so it
  is a \<open>foldr\<close> that keeps the pellets not eaten in their order. The blob grows as it eats,
  and its new radius is what the next pellet is tested against.
\<close>

definition eatPellet :: "pellet \<Rightarrow> blob \<times> pellet list \<Rightarrow> blob \<times> pellet list" where
  "eatPellet p st =
     (case st of (b, kept) \<Rightarrow>
        (let d = hypot (posx b - pelx p) (posy b - pely p)
         in if d < rad b + pelr p then (grow b (pelv p), kept) else (b, p # kept)))"

definition blobEats :: "blob \<Rightarrow> pellet list \<Rightarrow> blob \<times> pellet list" where
  "blobEats b ps = foldr eatPellet ps (b, [])"

fun blobsEat :: "blob list \<Rightarrow> pellet list \<Rightarrow> blob list \<times> pellet list" where
  "blobsEat [] ps = ([], ps)"
| "blobsEat (b # bs) ps =
     (case blobEats b ps of (b', ps1) \<Rightarrow>
        (case blobsEat bs ps1 of (bs', ps2) \<Rightarrow> (b' # bs', ps2)))"

fun agentsEat :: "(string \<times> agent) list \<Rightarrow> pellet list
    \<Rightarrow> (string \<times> agent) list \<times> pellet list" where
  "agentsEat [] ps = ([], ps)"
| "agentsEat ((k, a) # m) ps =
     (if dead a then (case agentsEat m ps of (m', ps') \<Rightarrow> ((k, a) # m', ps'))
      else (case blobsEat (blobs a) ps of (bs, ps1) \<Rightarrow>
              (case agentsEat m ps1 of (m', ps') \<Rightarrow> ((k, a\<lparr>blobs := bs\<rparr>) # m', ps'))))"

definition eatPellets :: "room \<Rightarrow> room" where
  "eatPellets rm =
     (case agentsEat (agents rm) (pellets rm) of (m, ps) \<Rightarrow> rm\<lparr>agents := m, pellets := ps\<rparr>)"

definition newPellet :: "nat \<Rightarrow> pellet \<times> nat" where
  "newPellet g =
     (let (ux, g1) = mulberry32 g;
          (uy, g2) = mulberry32 g1;
          (ur, g3) = mulberry32 g2;
          (uv, g4) = mulberry32 g3
      in (\<lparr>pelx = ux * WORLD, pely = uy * WORLD, pelr = 4 + ur * 5,
           pelv = 1 + of_int \<lfloor>uv * 2\<rfloor>\<rparr>, g4))"

function refill :: "pellet list \<Rightarrow> nat \<Rightarrow> pellet list \<times> nat" where
  "refill ps g =
     (if length ps < PELLET_TARGET
      then refill (ps @ [fst (newPellet g)]) (snd (newPellet g))
      else (ps, g))"
  by pat_completeness auto
termination
  by (relation "measure (\<lambda>(ps, g). PELLET_TARGET - length ps)") auto

declare refill.simps [simp del]

definition refillPellets :: "room \<Rightarrow> room" where
  "refillPellets rm =
     (case refill (pellets rm) (rng rm) of (ps, g) \<Rightarrow> rm\<lparr>pellets := ps, rng := g\<rparr>)"

subsection \<open>Viruses\<close>

text \<open>
  \<open>makePieces k\<close> is the loop that pushes \<open>k\<close> fragments; each draws \<^verbatim>\<open>Math.random\<close> three
  times, for the angle and for the two velocity components. \<open>pop\<close> is the branch
  \<^verbatim>\<open>b.r >= 62\<close>: \<^verbatim>\<open>a.blobs.splice(bi, 1)\<close>, then the pushes.
\<close>

fun makePieces :: "nat \<Rightarrow> blob \<Rightarrow> real \<Rightarrow> real \<Rightarrow> random \<Rightarrow> blob list \<times> random" where
  "makePieces 0 b pieceMass pieceR mr = ([], mr)"
| "makePieces (Suc k) b pieceMass pieceR mr =
     (let (u1, mr1) = Math_random mr;
          ang = u1 * pi * 2;
          dx = cos ang;
          dy = sin ang;
          (u2, mr2) = Math_random mr1;
          (u3, mr3) = Math_random mr2;
          f = \<lparr>posx = posx b + dx * (rad b + 10), posy = posy b + dy * (rad b + 10),
               velx = dx * (270 + u2 * 220), vely = dy * (270 + u3 * 220),
               mass = pieceMass, rad = pieceR, splitTimer = 0\<rparr>
      in (case makePieces k b pieceMass pieceR mr3 of (fs, mr') \<Rightarrow> (f # fs, mr')))"

definition pop :: "nat \<Rightarrow> blob \<Rightarrow> blob list \<Rightarrow> random \<Rightarrow> blob list \<times> random" where
  "pop bi b bs mr =
     (let pieces = 8;
          totalMass = mass b;
          pieceMass = totalMass / real pieces;
          pieceR = max 14 (rad b / sqrt (real pieces))
      in (case makePieces pieces b pieceMass pieceR mr of
            (fs, mr') \<Rightarrow> (removeAt bi bs @ fs, mr')))"

text \<open>
  The loop over \<^verbatim>\<open>room.viruses\<close> for the blob \<open>b\<close> read at index \<open>bi\<close>. \<open>b\<close> is the
  program's variable: it keeps the blob also after the blob has left the list. In the
  other branch the blob is still at index \<open>bi\<close>, and the impulse is written there.
\<close>

fun virusLoop :: "nat \<Rightarrow> virus list \<Rightarrow> blob \<Rightarrow> blob list \<Rightarrow> random \<Rightarrow> blob list \<times> random" where
  "virusLoop bi [] b bs mr = (bs, mr)"
| "virusLoop bi (v # vs) b bs mr =
     (let d = hypot (posx b - virx v) (posy b - viry v)
      in if d < rad b + virr v
         then (if rad b \<ge> 62
               then (case pop bi b bs mr of (bs', mr') \<Rightarrow> virusLoop bi vs b bs' mr')
               else (let n = normalize2D (posx b - virx v) (posy b - viry v);
                         b' = b\<lparr>velx := velx b + fst n * 220, vely := vely b + snd n * 220\<rparr>
                     in virusLoop bi vs b' (bs[bi := b']) mr))
         else virusLoop bi vs b bs mr)"

text \<open>The loop over the blobs of one agent, from index \<open>n - 1\<close> down to 0.\<close>

fun virusBlobs :: "nat \<Rightarrow> virus list \<Rightarrow> blob list \<Rightarrow> random \<Rightarrow> blob list \<times> random" where
  "virusBlobs 0 vs bs mr = (bs, mr)"
| "virusBlobs (Suc bi) vs bs mr =
     (case virusLoop bi vs (bs ! bi) bs mr of (bs', mr') \<Rightarrow> virusBlobs bi vs bs' mr')"

fun virusAgents :: "(string \<times> agent) list \<Rightarrow> virus list \<Rightarrow> random
    \<Rightarrow> (string \<times> agent) list \<times> random" where
  "virusAgents [] vs mr = ([], mr)"
| "virusAgents ((k, a) # m) vs mr =
     (if dead a then (case virusAgents m vs mr of (m', mr') \<Rightarrow> ((k, a) # m', mr'))
      else (case virusBlobs (length (blobs a)) vs (blobs a) mr of (bs, mr1) \<Rightarrow>
              (case virusAgents m vs mr1 of (m', mr') \<Rightarrow> ((k, a\<lparr>blobs := bs\<rparr>) # m', mr'))))"

definition virusPhase :: "room \<Rightarrow> random \<Rightarrow> room \<times> random" where
  "virusPhase rm mr =
     (case virusAgents (agents rm) (viruses rm) mr of (m, mr') \<Rightarrow> (rm\<lparr>agents := m\<rparr>, mr'))"

subsection \<open>Engulfment\<close>

text \<open>
  The loops over the blobs of an agent pair return, besides the two blob lists, the list of
  the engulfments in the order they happen. The list is not program state: it records, for
  each engulfment, whether the eater is the blob of \<open>A\<close>, the two indices at that moment,
  the eater and the eaten blob as they were, and the eater after \<^verbatim>\<open>grow\<close>.
\<close>

datatype engulfment =
  Engulfment (byA: bool) (ixA: nat) (ixB: nat) (eater: blob) (eaten: blob) (grown: blob)

definition engulfs :: "blob \<Rightarrow> blob \<Rightarrow> bool" where
  "engulfs e p =
     (canEat (rad e) (rad p) \<and> canEngulf (posx e) (posy e) (rad e) (posx p) (posy p) (rad p))"

definition eatBlob :: "blob \<Rightarrow> blob \<Rightarrow> blob" where
  "eatBlob e p = (let ratio = clamp (mass p / max 1 (mass e)) 0.12 0.50 in grow e (mass p * ratio))"

text \<open>
  The loop over \<open>bi\<close>, from \<open>n - 1\<close> down to 0, for the blob at index \<open>ai\<close> of \<open>A\<close>. The
  first branch is \<^verbatim>\<open>if (!bb) continue\<close>; the branch in which \<open>A\<close>'s blob is eaten ends the
  loop (\<^verbatim>\<open>break\<close>).
\<close>

fun engulfInner :: "nat \<Rightarrow> nat \<Rightarrow> blob list \<Rightarrow> blob list
    \<Rightarrow> blob list \<times> blob list \<times> engulfment list" where
  "engulfInner ai 0 As Bs = (As, Bs, [])"
| "engulfInner ai (Suc bi) As Bs =
     (if bi \<ge> length Bs then engulfInner ai bi As Bs
      else (let ab = As ! ai; bb = Bs ! bi
            in if engulfs ab bb
               then (case engulfInner ai bi (As[ai := eatBlob ab bb]) (removeAt bi Bs) of
                       (As', Bs', tr) \<Rightarrow>
                         (As', Bs', Engulfment True ai bi ab bb (eatBlob ab bb) # tr))
               else if engulfs bb ab
               then (removeAt ai As, Bs[bi := eatBlob bb ab],
                     [Engulfment False ai bi bb ab (eatBlob bb ab)])
               else engulfInner ai bi As Bs))"

text \<open>The loop over \<open>ai\<close>, from \<open>n - 1\<close> down to 0; the first branch is
  \<^verbatim>\<open>if (!ab) continue\<close>.\<close>

fun engulfOuter :: "nat \<Rightarrow> blob list \<Rightarrow> blob list
    \<Rightarrow> blob list \<times> blob list \<times> engulfment list" where
  "engulfOuter 0 As Bs = (As, Bs, [])"
| "engulfOuter (Suc ai) As Bs =
     (if ai \<ge> length As then engulfOuter ai As Bs
      else (case engulfInner ai (length Bs) As Bs of
              (As1, Bs1, tr1) \<Rightarrow>
                (case engulfOuter ai As1 Bs1 of
                   (As2, Bs2, tr2) \<Rightarrow> (As2, Bs2, tr1 @ tr2))))"

definition engulfBlobs :: "blob list \<Rightarrow> blob list
    \<Rightarrow> blob list \<times> blob list \<times> engulfment list" where
  "engulfBlobs As Bs = engulfOuter (length As) As Bs"

definition markDead :: "agent \<Rightarrow> blob list \<Rightarrow> agent" where
  "markDead a bs = a\<lparr>blobs := bs, dead := (if length bs = 0 then True else dead a)\<rparr>"

text \<open>One agent pair: the blob loops, then the two tests for an empty blob list.\<close>

definition engulfPair :: "agent \<Rightarrow> agent \<Rightarrow> agent \<times> agent \<times> engulfment list" where
  "engulfPair A B =
     (case engulfBlobs (blobs A) (blobs B) of
        (As, Bs, tr) \<Rightarrow> (markDead A As, markDead B Bs, tr))"

text \<open>
  The loops over \<open>i\<close> and \<open>j > i\<close> on \<^verbatim>\<open>arr = Array.from(room.agents.values())\<close>. \<open>A\<close> is
  tested for \<^verbatim>\<open>dead\<close> once, before the loop over \<open>j\<close>. In the list of the engulfments of
  the phase, each engulfment stands with the indices \<open>i\<close> and \<open>j\<close> of its agent pair.
\<close>

type_synonym event = "nat \<times> nat \<times> engulfment"

definition engulfJ :: "nat \<Rightarrow> agent list \<times> event list \<Rightarrow> nat \<Rightarrow> agent list \<times> event list" where
  "engulfJ i st j =
     (case st of (arr, tr) \<Rightarrow>
        if dead (arr ! j) then st
        else (case engulfPair (arr ! i) (arr ! j) of
                (A', B', t) \<Rightarrow> (arr[i := A', j := B'], tr @ map (\<lambda>e. (i, j, e)) t)))"

definition engulfI :: "agent list \<times> event list \<Rightarrow> nat \<Rightarrow> agent list \<times> event list" where
  "engulfI st i =
     (case st of (arr, tr) \<Rightarrow>
        if dead (arr ! i) then st else foldl (engulfJ i) st [Suc i..<length arr])"

definition engulfAll :: "agent list \<Rightarrow> agent list \<times> event list" where
  "engulfAll arr = foldl engulfI (arr, []) [0..<length arr]"

text \<open>The agents of \<open>arr\<close> are the objects in the map, so the map sees what the loops did.\<close>

definition engulfPhase :: "room \<Rightarrow> room" where
  "engulfPhase rm =
     rm\<lparr>agents := zip (map fst (agents rm)) (fst (engulfAll (mapValues (agents rm))))\<rparr>"

definition engulfTrace :: "room \<Rightarrow> event list" where
  "engulfTrace rm = snd (engulfAll (mapValues (agents rm)))"

subsection \<open>Respawn of bots, and the whole tick\<close>

definition respawnStep :: "real \<Rightarrow> (string \<times> agent) list \<times> nat \<Rightarrow> agent
    \<Rightarrow> (string \<times> agent) list \<times> nat" where
  "respawnStep now st a =
     (case st of (m, g) \<Rightarrow>
        if dead a \<and> isBot a
        then (case spawnAgent (aid a) (name a) True g now of
                (a', g') \<Rightarrow> (mapSet (aid a) a' m, g'))
        else st)"

definition respawn :: "real \<Rightarrow> room \<Rightarrow> room" where
  "respawn now rm =
     (case foldl (respawnStep now) (agents rm, rng rm) (mapValues (agents rm)) of
        (m, g) \<Rightarrow> rm\<lparr>agents := m, rng := g\<rparr>)"

text \<open>
  \<^verbatim>\<open>tickRoom(room)\<close>, up to the engulfment phase and as a whole. \<open>now\<close> is the wall clock
  in seconds, read once for the call; \<open>mr\<close> is what \<^verbatim>\<open>Math.random\<close> returns during the call.
\<close>

definition beforeEngulf :: "real \<Rightarrow> random \<Rightarrow> room \<Rightarrow> room" where
  "beforeEngulf now mr rm =
     (let rm0 = rm\<lparr>clock := clock rm + DT\<rparr>;
          rm1 = removeInactive now rm0;
          (rm2, mr2) = botAI rm1 mr;
          rm3 = movement rm2;
          rm4 = eatPellets rm3;
          rm5 = refillPellets rm4
      in fst (virusPhase rm5 mr2))"

definition tickRoom :: "real \<Rightarrow> random \<Rightarrow> room \<Rightarrow> room" where
  "tickRoom now mr rm = respawn now (engulfPhase (beforeEngulf now mr rm))"

section \<open>The requests\<close>

text \<open>
  \<^verbatim>\<open>rooms\<close> maps a code to its room. The handlers are modelled from the point where the
  request's fields have been read: \<open>cd\<close>, \<open>nm\<close> and \<open>ident\<close> are the constants
  \<^verbatim>\<open>code\<close>, \<^verbatim>\<open>name\<close> and \<^verbatim>\<open>id\<close> of the handler.
\<close>

datatype joinError = RoomNotFound | RoomFull

definition humans :: "room \<Rightarrow> nat" where
  "humans rm = length (filter (\<lambda>a. \<not> isBot a) (mapValues (agents rm)))"

definition joinRoom :: "room \<Rightarrow> string \<Rightarrow> string \<Rightarrow> real \<Rightarrow> joinError + room" where
  "joinRoom rm nm ident now =
     (if real (humans rm) \<ge> maxPlayers rm then Inl RoomFull
      else (case spawnAgent ident nm False (rng rm) now of
              (a, g) \<Rightarrow> Inr (rm\<lparr>agents := mapSet ident a (agents rm), rng := g\<rparr>)))"

definition join :: "(string \<rightharpoonup> room) \<Rightarrow> string \<Rightarrow> string \<Rightarrow> string \<Rightarrow> real
    \<Rightarrow> joinError + (string \<rightharpoonup> room)" where
  "join rooms cd nm ident now =
     (case rooms cd of
        None \<Rightarrow> Inl RoomNotFound
      | Some rm \<Rightarrow>
          (case joinRoom rm nm ident now of
             Inl e \<Rightarrow> Inl e
           | Inr rm' \<Rightarrow> Inr (rooms(cd \<mapsto> rm'))))"

text \<open>The split branch of \<^verbatim>\<open>/input\<close>: \<open>largest\<close> is the loop that finds \<^verbatim>\<open>best\<close>.\<close>

definition largest :: "blob list \<Rightarrow> nat" where
  "largest bs = foldl (\<lambda>best i. if rad (bs ! i) > rad (bs ! best) then i else best) 0
                  [1..<length bs]"

definition split :: "agent \<Rightarrow> agent" where
  "split a =
     (let best = largest (blobs a)
      in if best < length (blobs a) \<and> rad (blobs a ! best) \<ge> 14 * 2.2
         then (let b = blobs a ! best;
                   dir = normalize2D (aimX a) (aimY a);
                   newMass = mass b * 0.5;
                   b1 = b\<lparr>mass := mass b * 0.5, rad := max 14 (rad b * 0.72)\<rparr>;
                   sibling = \<lparr>posx = posx b1 + fst dir * (rad b1 + 8),
                              posy = posy b1 + snd dir * (rad b1 + 8),
                              velx = fst dir * 580, vely = snd dir * 580,
                              mass = newMass, rad = max 14 (rad b1), splitTimer = 0\<rparr>
               in a\<lparr>blobs := (blobs a)[best := b1\<lparr>splitTimer := 0\<rparr>] @ [sibling]\<rparr>)
         else a)"

text \<open>
  \<^verbatim>\<open>/input\<close>: the answer's \<^verbatim>\<open>ok\<close> and the store. \<open>ax\<close>, \<open>ay\<close>, \<open>bst\<close> and \<open>spl\<close> are
  \<^verbatim>\<open>Number(aimX) || 0\<close>, \<^verbatim>\<open>Number(aimY) || 0\<close>, \<^verbatim>\<open>!!boost\<close> and \<^verbatim>\<open>split === true\<close>.
  Here \<open>ax\<close> and \<open>ay\<close> are finite; \<open>inputN\<close> below is the handler for an aim that is any
  number.
\<close>

definition inputRoom :: "room \<Rightarrow> string \<Rightarrow> real \<Rightarrow> real \<Rightarrow> bool \<Rightarrow> bool \<Rightarrow> real
    \<Rightarrow> room option" where
  "inputRoom rm ident ax ay bst spl now =
     (case mapGet (agents rm) ident of
        None \<Rightarrow> None
      | Some a \<Rightarrow>
          if dead a then None
          else (let a1 = setAim (a\<lparr>lastSeen := now\<rparr>) ax ay bst;
                    a2 = (if spl then split a1 else a1)
                in Some (rm\<lparr>agents := mapSet ident a2 (agents rm)\<rparr>)))"

definition input :: "(string \<rightharpoonup> room) \<Rightarrow> string \<Rightarrow> string \<Rightarrow> real \<Rightarrow> real \<Rightarrow> bool \<Rightarrow> bool
    \<Rightarrow> real \<Rightarrow> bool \<times> (string \<rightharpoonup> room)" where
  "input rooms cd ident ax ay bst spl now =
     (case rooms cd of
        None \<Rightarrow> (False, rooms)
      | Some rm \<Rightarrow>
          (case inputRoom rm ident ax ay bst spl now of
             None \<Rightarrow> (False, rooms)
           | Some rm' \<Rightarrow> (True, rooms(cd \<mapsto> rm'))))"

text \<open>
  A room's history: any sequence of ticks, joins and inputs, each with any arguments, any
  wall-clock reading and any outcomes of \<^verbatim>\<open>Math.random\<close>.
\<close>

inductive evolves :: "room \<Rightarrow> room \<Rightarrow> bool" where
  start: "evolves rm rm"
| tick: "evolves rm rm1 \<Longrightarrow> evolves rm (tickRoom now mr rm1)"
| joined: "evolves rm rm1 \<Longrightarrow> joinRoom rm1 nm ident now = Inr rm2 \<Longrightarrow> evolves rm rm2"
| inputted: "evolves rm rm1 \<Longrightarrow> inputRoom rm1 ident ax ay bst spl now = Some rm2
    \<Longrightarrow> evolves rm rm2"

section \<open>Numbers that are not finite\<close>

text \<open>
  The definitions above compute on reals: they follow the program as long as its numbers
  are finite. The aim of a request need not be: \<^verbatim>\<open>Number(aimX) || 0\<close> replaces NaN and 0 by
  0 and keeps an infinity, \<^verbatim>\<open>normalize\<close> divides it by an infinite length, and the NaN it
  stores as the aim reaches the position in the movement step and a sibling in a split.
  The functions on this path are therefore modelled a second time, with the suffix \<open>N\<close>,
  over numbers that may be infinite or NaN: the arithmetic, \<^verbatim>\<open>Math.min\<close>, \<^verbatim>\<open>Math.max\<close>
  and \<^verbatim>\<open>Math.hypot\<close>, \<^verbatim>\<open>clamp\<close>, \<^verbatim>\<open>normalize\<close>, the handler of \<^verbatim>\<open>/input\<close> with its split
  branch, and the clamped displacement of the movement step. Mass, radius and the timers
  are computed from each other and from constants only, and stay reals. The sign of a zero
  and rounding are not modelled.
\<close>

datatype number = Fin real | PosInf | NegInf | NaN

fun plusN :: "number \<Rightarrow> number \<Rightarrow> number" where
  "plusN (Fin x) (Fin y) = Fin (x + y)"
| "plusN NaN _ = NaN"
| "plusN _ NaN = NaN"
| "plusN PosInf NegInf = NaN"
| "plusN NegInf PosInf = NaN"
| "plusN PosInf _ = PosInf"
| "plusN _ PosInf = PosInf"
| "plusN NegInf _ = NegInf"
| "plusN _ NegInf = NegInf"

fun timesN :: "number \<Rightarrow> number \<Rightarrow> number" where
  "timesN (Fin x) (Fin y) = Fin (x * y)"
| "timesN NaN _ = NaN"
| "timesN _ NaN = NaN"
| "timesN (Fin x) PosInf = (if x = 0 then NaN else if 0 < x then PosInf else NegInf)"
| "timesN (Fin x) NegInf = (if x = 0 then NaN else if 0 < x then NegInf else PosInf)"
| "timesN PosInf (Fin y) = (if y = 0 then NaN else if 0 < y then PosInf else NegInf)"
| "timesN NegInf (Fin y) = (if y = 0 then NaN else if 0 < y then NegInf else PosInf)"
| "timesN PosInf PosInf = PosInf"
| "timesN NegInf NegInf = PosInf"
| "timesN PosInf NegInf = NegInf"
| "timesN NegInf PosInf = NegInf"

text \<open>A zero divisor is taken as \<open>+0\<close>; an infinity divided by an infinity is NaN.\<close>

fun divN :: "number \<Rightarrow> number \<Rightarrow> number" where
  "divN (Fin x) (Fin y) =
     (if y \<noteq> 0 then Fin (x / y) else if x = 0 then NaN else if 0 < x then PosInf else NegInf)"
| "divN NaN _ = NaN"
| "divN _ NaN = NaN"
| "divN (Fin x) _ = Fin 0"
| "divN PosInf (Fin y) = (if 0 \<le> y then PosInf else NegInf)"
| "divN NegInf (Fin y) = (if 0 \<le> y then NegInf else PosInf)"
| "divN _ _ = NaN"

text \<open>\<^verbatim>\<open>a < b\<close>: false when either is NaN.\<close>

fun lessN :: "number \<Rightarrow> number \<Rightarrow> bool" where
  "lessN (Fin x) (Fin y) = (x < y)"
| "lessN NaN _ = False"
| "lessN _ NaN = False"
| "lessN PosInf _ = False"
| "lessN _ NegInf = False"
| "lessN _ _ = True"

definition Math_min :: "number \<Rightarrow> number \<Rightarrow> number" where
  "Math_min a b = (if a = NaN \<or> b = NaN then NaN else if lessN b a then b else a)"

definition Math_max :: "number \<Rightarrow> number \<Rightarrow> number" where
  "Math_max a b = (if a = NaN \<or> b = NaN then NaN else if lessN a b then b else a)"

text \<open>\<^verbatim>\<open>Math.hypot\<close>: infinite when an argument is, also beside a NaN.\<close>

fun hypotN :: "number \<Rightarrow> number \<Rightarrow> number" where
  "hypotN (Fin x) (Fin y) = Fin (hypot x y)"
| "hypotN PosInf _ = PosInf"
| "hypotN NegInf _ = PosInf"
| "hypotN _ PosInf = PosInf"
| "hypotN _ NegInf = PosInf"
| "hypotN _ _ = NaN"

definition clampN :: "number \<Rightarrow> number \<Rightarrow> number \<Rightarrow> number" where
  "clampN v lo hi = Math_max lo (Math_min hi v)"

definition normalizeN :: "number \<Rightarrow> number \<Rightarrow> number \<times> number" where
  "normalizeN a b =
     (let L = hypotN a b
      in if lessN L (Fin (1 / 1000000)) then (Fin 0, Fin 0) else (divN a L, divN b L))"

text \<open>The blob and the agent with positions, velocities and aim as such numbers.\<close>

record blobN =
  posxN :: number
  posyN :: number
  velxN :: number
  velyN :: number
  massN :: real
  radN :: real
  splitTimerN :: real

record agentN =
  aidN :: string
  nameN :: string
  isBotN :: bool
  colN :: colour
  deadN :: bool
  aimXN :: number
  aimYN :: number
  boostN :: bool
  lastSeenN :: real
  blobsN :: "blobN list"

definition ofBlob :: "blob \<Rightarrow> blobN" where
  "ofBlob b =
     \<lparr>posxN = Fin (posx b), posyN = Fin (posy b), velxN = Fin (velx b), velyN = Fin (vely b),
      massN = mass b, radN = rad b, splitTimerN = splitTimer b\<rparr>"

definition ofAgent :: "agent \<Rightarrow> agentN" where
  "ofAgent a =
     \<lparr>aidN = aid a, nameN = name a, isBotN = isBot a, colN = col a, deadN = dead a,
      aimXN = Fin (aimX a), aimYN = Fin (aimY a), boostN = boost a, lastSeenN = lastSeen a,
      blobsN = map ofBlob (blobs a)\<rparr>"

text \<open>
  The displacement along the aim and the clamp of the movement step, for one blob: the
  first four statements of the loop over \<^verbatim>\<open>a.blobs\<close>.
\<close>

definition moveClampN :: "agentN \<Rightarrow> real \<Rightarrow> blobN \<Rightarrow> blobN" where
  "moveClampN a tot b =
     (let v = baseSpeed (radN b) tot (boostN a);
          x1 = plusN (posxN b) (timesN (timesN (aimXN a) (Fin v)) (Fin DT));
          y1 = plusN (posyN b) (timesN (timesN (aimYN a) (Fin v)) (Fin DT))
      in b\<lparr>posxN := clampN x1 (Fin (radN b)) (Fin (WORLD - radN b)),
            posyN := clampN y1 (Fin (radN b)) (Fin (WORLD - radN b))\<rparr>)"

text \<open>The split branch of \<^verbatim>\<open>/input\<close>.\<close>

definition largestN :: "blobN list \<Rightarrow> nat" where
  "largestN bs = foldl (\<lambda>best i. if radN (bs ! i) > radN (bs ! best) then i else best) 0
                   [1..<length bs]"

definition splitN :: "agentN \<Rightarrow> agentN" where
  "splitN a =
     (let best = largestN (blobsN a)
      in if best < length (blobsN a) \<and> radN (blobsN a ! best) \<ge> 14 * 2.2
         then (let b = blobsN a ! best;
                   dir = normalizeN (aimXN a) (aimYN a);
                   newMass = massN b * 0.5;
                   b1 = b\<lparr>massN := massN b * 0.5, radN := max 14 (radN b * 0.72)\<rparr>;
                   sibling = \<lparr>posxN = plusN (posxN b1) (timesN (fst dir) (Fin (radN b1 + 8))),
                              posyN = plusN (posyN b1) (timesN (snd dir) (Fin (radN b1 + 8))),
                              velxN = timesN (fst dir) (Fin 580),
                              velyN = timesN (snd dir) (Fin 580),
                              massN = newMass, radN = max 14 (radN b1), splitTimerN = 0\<rparr>
               in a\<lparr>blobsN := (blobsN a)[best := b1\<lparr>splitTimerN := 0\<rparr>] @ [sibling]\<rparr>)
         else a)"

text \<open>
  The handler of \<^verbatim>\<open>/input\<close> from \<^verbatim>\<open>a.lastSeen = Date.now() / 1000\<close> on, for the living
  agent \<open>a\<close> it has found. \<open>aimx\<close> and \<open>aimy\<close> are \<^verbatim>\<open>Number(req.body?.aimX)\<close> and
  \<^verbatim>\<open>Number(req.body?.aimY)\<close>, any numbers; \<open>orZero v\<close> is \<^verbatim>\<open>v || 0\<close>.
\<close>

definition orZero :: "number \<Rightarrow> number" where
  "orZero v = (if v = NaN \<or> v = Fin 0 then Fin 0 else v)"

definition inputN :: "agentN \<Rightarrow> number \<Rightarrow> number \<Rightarrow> bool \<Rightarrow> bool \<Rightarrow> real \<Rightarrow> agentN" where
  "inputN a aimx aimy bst spl now =
     (let ax = orZero aimx;
          ay = orZero aimy;
          n = normalizeN ax ay;
          a1 = a\<lparr>lastSeenN := now, aimXN := fst n, aimYN := snd n, boostN := bst\<rparr>
      in if spl then splitN a1 else a1)"

section \<open>Properties of states\<close>

text \<open>
  What every blob satisfies throughout: the radius is at least the floor 14 and the mass is
  positive. In a room, moreover, no pellet has a negative value.
\<close>

definition blobOK :: "blob \<Rightarrow> bool" where
  "blobOK b = (14 \<le> rad b \<and> 0 < mass b)"

definition agentsOK :: "(string \<times> agent) list \<Rightarrow> bool" where
  "agentsOK m = list_all (\<lambda>(k, a). list_all blobOK (blobs a)) m"

definition roomOK :: "room \<Rightarrow> bool" where
  "roomOK rm = (agentsOK (agents rm) \<and> list_all (\<lambda>p. 0 \<le> pelv p) (pellets rm))"

definition arrOK :: "agent list \<Rightarrow> bool" where
  "arrOK arr = list_all (\<lambda>a. list_all blobOK (blobs a)) arr"

text \<open>An agent without what the bot AI and an input's aim write.\<close>

definition unaimed :: "agent \<Rightarrow> agent" where
  "unaimed a = a\<lparr>aimX := 0, aimY := 0, boost := False\<rparr>"

text \<open>An agent without what the engulfment phase writes.\<close>

definition bare :: "agent \<Rightarrow> agent" where
  "bare a = a\<lparr>dead := False, blobs := []\<rparr>"

text \<open>
  For the phases before the engulfment: an agent is dead exactly when it has no blob
  (\<open>tidy\<close>), and every blob of a living agent has a mass of at least \<open>c\<close> (\<open>heavy c\<close>).
\<close>

definition tidy :: "(string \<times> agent) list \<Rightarrow> bool" where
  "tidy m = list_all (\<lambda>(k, a). dead a \<longleftrightarrow> blobs a = []) m"

definition heavy :: "real \<Rightarrow> (string \<times> agent) list \<Rightarrow> bool" where
  "heavy c m = list_all (\<lambda>(k, a). \<not> dead a \<longrightarrow> list_all (\<lambda>b. c \<le> mass b) (blobs a)) m"

text \<open>
  For the engulfment phase: what is recorded of an engulfment, the number of blobs of a list
  of agents, and the state of the two loops over the agents.
\<close>

definition eventOK :: "(blob \<Rightarrow> bool) \<Rightarrow> engulfment \<Rightarrow> bool" where
  "eventOK P e = (engulfs (eater e) (eaten e) \<and> P (eater e) \<and> P (eaten e)
                   \<and> grown e = eatBlob (eater e) (eaten e))"

definition blobCount :: "agent list \<Rightarrow> nat" where
  "blobCount arr = sum_list (map (\<lambda>a. length (blobs a)) arr)"

definition engulfInv :: "(blob \<Rightarrow> bool) \<Rightarrow> nat \<Rightarrow> agent list \<times> event list \<Rightarrow> bool" where
  "engulfInv P n st =
     (list_all (\<lambda>a. list_all P (blobs a) \<and> (blobs a = [] \<longrightarrow> dead a)) (fst st)
      \<and> list_all (\<lambda>ev. eventOK P (snd (snd ev))) (snd st)
      \<and> blobCount (fst st) + length (snd st) = n)"

section \<open>What the bot AI is to compute\<close>







section \<open>What the engulfment phase is to do\<close>

text \<open>
  In the words of the specification: a blob may engulf another when its radius exceeds the
  other's radius times 1.12 and the distance of the centres is less than its radius minus
  0.65 times the other's radius. The eater gains, through the growth formula, the eaten
  blob's mass times the ratio of the eaten to the eater's mass clamped to [0.12, 0.50]; by
  the growth formula a gain is applied in full up to the soft cap of 1400 and above it
  scaled by cap / mass, floored at 0.25, and the radius grows by 0.22 of the applied gain.
  The eaten blob leaves its agent at once.

  \<open>specEvent\<close> applies one recorded engulfment to the blob lists of the agents in this way.
  It is \<open>None\<close> when the record is not such an engulfment: when the two agents are one,
  when the eater or the eaten blob is not the blob at its index in its agent's list, when
  the eater may not engulf the eaten blob, or when the eater is not recorded to have grown
  as said. \<open>replay\<close> applies the records of a list in their order.
\<close>

definition mayEngulf :: "blob \<Rightarrow> blob \<Rightarrow> bool" where
  "mayEngulf A B =
     (rad A > rad B * 1.12
      \<and> sqrt ((posx A - posx B)\<^sup>2 + (posy A - posy B)\<^sup>2) < rad A - rad B * 0.65)"

definition appliedGain :: "real \<Rightarrow> real \<Rightarrow> real" where
  "appliedGain m gain = (if m > 1400 then gain * max 0.25 (1400 / m) else gain)"

definition afterEating :: "blob \<Rightarrow> blob \<Rightarrow> blob" where
  "afterEating A B =
     (let fraction = max 0.12 (min 0.50 (mass B / mass A));
          gain = appliedGain (mass A) (mass B * fraction)
      in A\<lparr>mass := mass A + gain, rad := rad A + gain * 0.22\<rparr>)"

definition specEvent :: "event \<Rightarrow> blob list list \<Rightarrow> blob list list option" where
  "specEvent ev bss =
     (case ev of (i, j, e) \<Rightarrow>
        (let x = (if byA e then i else j);
             xi = (if byA e then ixA e else ixB e);
             y = (if byA e then j else i);
             yi = (if byA e then ixB e else ixA e)
         in if i \<noteq> j \<and> x < length bss \<and> y < length bss
               \<and> xi < length (bss ! x) \<and> yi < length (bss ! y)
               \<and> bss ! x ! xi = eater e \<and> bss ! y ! yi = eaten e
               \<and> mayEngulf (eater e) (eaten e)
               \<and> grown e = afterEating (eater e) (eaten e)
            then Some (bss[x := (bss ! x)[xi := grown e],
                           y := take yi (bss ! y) @ drop (Suc yi) (bss ! y)])
            else None))"

fun replay :: "event list \<Rightarrow> blob list list \<Rightarrow> blob list list option" where
  "replay [] bss = Some bss"
| "replay (ev # evs) bss =
     (case specEvent ev bss of None \<Rightarrow> None | Some bss' \<Rightarrow> replay evs bss')"

section \<open>Concrete states\<close>

text \<open>Blobs, agents and rooms on which the operations are evaluated below.\<close>

definition blobAt :: "real \<Rightarrow> real \<Rightarrow> real \<Rightarrow> real \<Rightarrow> blob" where
  "blobAt px py m r =
     \<lparr>posx = px, posy = py, velx = 0, vely = 0, mass = m, rad = r, splitTimer = 999\<rparr>"

definition agentOf :: "string \<Rightarrow> bool \<Rightarrow> real \<Rightarrow> real \<Rightarrow> blob list \<Rightarrow> agent" where
  "agentOf ident bt ax ay bs =
     \<lparr>aid = ident, name = ident, isBot = bt, col = \<lparr>red = 70, green = 70, blue = 70\<rparr>,
      dead = False, aimX = ax, aimY = ay, boost = False, lastSeen = 1, blobs = bs\<rparr>"

definition roomOf :: "(string \<times> agent) list \<Rightarrow> pellet list \<Rightarrow> virus list \<Rightarrow> room" where
  "roomOf ags ps vs =
     \<lparr>code = ''ABCDEF'', seed = 1, rng = 1, maxPlayers = 8, bots = 0, clock = 0,
      agents = ags, pellets = ps, viruses = vs\<rparr>"

definition storeOf :: "room \<Rightarrow> (string \<rightharpoonup> room)" where
  "storeOf rm = Map.empty(code rm \<mapsto> rm)"

text \<open>A room with one bot, and a room with eight humans, which is full.\<close>

definition botRoom :: room where
  "botRoom = roomOf [(''bot_0_ABCDEF'',
      agentOf ''bot_0_ABCDEF'' True 0 0 [blobAt 1000 1000 40 30])] [] []"

definition fullRoom :: room where
  "fullRoom = roomOf (map (\<lambda>k. (k, agentOf k False 0 0 [blobAt 1000 1000 55 36]))
      [''h1'', ''h2'', ''h3'', ''h4'', ''h5'', ''h6'', ''h7'', ''h8'']) [] []"

text \<open>A human with two blobs who aims along the x axis, one with a small blob, and one who
  does not aim.\<close>

definition splitter :: agent where
  "splitter = agentOf ''p'' False 1 0 [blobAt 100 100 20 20, blobAt 1000 1000 55 36]"

definition smallOne :: agent where
  "smallOne = agentOf ''p'' False 1 0 [blobAt 100 100 20 20]"

definition idleRoom :: room where
  "idleRoom = roomOf [(''p'', agentOf ''p'' False 0 0 [blobAt 1000 1000 55 36])] [] []"

text \<open>A human whose blob has decayed to mass 11, and the room after the blob has split.\<close>

definition decayed :: agent where
  "decayed = agentOf ''p'' False 1 0 [blobAt 1000 1000 11 32.48]"

definition decayedRoom :: room where
  "decayedRoom = roomOf [(''p'', decayed)] [] []"

definition afterSplit :: room where
  "afterSplit = roomOf [(''p'', (agentOf ''p'' False 1 0
      [\<lparr>posx = 1000, posy = 1000, velx = 0, vely = 0, mass = 5.5, rad = 23.3856,
        splitTimer = 0\<rparr>,
       \<lparr>posx = 1031.3856, posy = 1000, velx = 580, vely = 0, mass = 5.5, rad = 23.3856,
        splitTimer = 0\<rparr>])\<lparr>lastSeen := 7\<rparr>)] [] []"

text \<open>A blob of radius 100 within reach of two viruses.\<close>

definition bigBlob :: blob where
  "bigBlob = blobAt 1000 1000 800 100"

definition virusA :: virus where
  "virusA = \<lparr>virx = 1000, viry = 1000, virr = 36\<rparr>"

definition virusB :: virus where
  "virusB = \<lparr>virx = 1050, viry = 1000, virr = 36\<rparr>"

text \<open>
  Three blobs at one place, of radius 50, 200 and 10; the first after it has eaten the
  third, and the second after it has eaten the first.
\<close>

definition midBlob :: blob where
  "midBlob = blobAt 1000 1000 100 50"

definition hugeBlob :: blob where
  "hugeBlob = blobAt 1000 1000 1000 200"

definition tinyBlob :: blob where
  "tinyBlob = blobAt 1000 1000 10 10"

definition fedBlob :: blob where
  "fedBlob = midBlob\<lparr>mass := 101.2, rad := 50.264\<rparr>"

definition fatBlob :: blob where
  "fatBlob = hugeBlob\<lparr>mass := 1012.144, rad := 202.67168\<rparr>"

definition agentA :: agent where
  "agentA = agentOf ''a'' False 0 0 [midBlob]"

definition agentB :: agent where
  "agentB = agentOf ''b'' False 0 0 [hugeBlob, tinyBlob]"

text \<open>
  Three humans: one alone at (3000, 1000), and two at (1000, 1000), the first with a blob of
  radius 50 and the second with blobs of radius 200 and 14, as they are before a tick; and
  the four blobs after the decay of one tick.
\<close>

definition lone0 :: blob where
  "lone0 = blobAt 3000 1000 55.011 36.00088"

definition mid0 :: blob where
  "mid0 = blobAt 1000 1000 100.011 50.00088"

definition huge0 :: blob where
  "huge0 = blobAt 1000 1000 1000.011 200.00088"

definition small0 :: blob where
  "small0 = blobAt 1000 1000 10.011 14.00088"

definition feastRoom :: room where
  "feastRoom = roomOf
     [(''c'', agentOf ''c'' False 0 0 [lone0]), (''a'', agentOf ''a'' False 0 0 [mid0]),
      (''b'', agentOf ''b'' False 0 0 [huge0, small0])] [] []"

definition loneD :: blob where
  "loneD = (blobAt 3000 1000 55 36)\<lparr>splitTimer := 999.05\<rparr>"

definition midD :: blob where
  "midD = (blobAt 1000 1000 100 50)\<lparr>splitTimer := 999.05\<rparr>"

definition hugeD :: blob where
  "hugeD = (blobAt 1000 1000 1000 200)\<lparr>splitTimer := 999.05\<rparr>"

definition smallD :: blob where
  "smallD = (blobAt 1000 1000 10 14)\<lparr>splitTimer := 999.05\<rparr>"

text \<open>The blob of radius 50 after it has eaten the one of radius 14, and the blob of radius
  200 after it has eaten that.\<close>

definition fedD :: blob where
  "fedD = midD\<lparr>mass := 101.2, rad := 50.264\<rparr>"

definition fatD :: blob where
  "fatD = hugeD\<lparr>mass := 1012.144, rad := 202.67168\<rparr>"




text \<open>
  A bot of radius 40 with a human of radius 20 in sight, 200 away; and the two after a tick,
  the bot as it depends on the boost flag.
\<close>

definition huntRoom :: room where
  "huntRoom = roomOf [(''bot_0_ABCDEF'', agentOf ''bot_0_ABCDEF'' True 0 0 [blobAt 1000 1000 100 40]),
                      (''p'', agentOf ''p'' False 0 0 [blobAt 1200 1000 30 20])] [] []"

definition hunterAfter :: "bool \<Rightarrow> agent" where
  "hunterAfter bst =
     (agentOf ''bot_0_ABCDEF'' True 1 0
        [\<lparr>posx = 1000 + (if bst then 1.55 else 1) * (455 / 43), posy = 1000, velx = 0, vely = 0,
          mass = 99.992, rad = 39.99936, splitTimer = 999.05\<rparr>])\<lparr>boost := bst\<rparr>"

definition huntedAfter :: agent where
  "huntedAfter = agentOf ''p'' False 0 0
     [\<lparr>posx = 1200, posy = 1000, velx = 0, vely = 0, mass = 29.989, rad = 19.99912,
       splitTimer = 999.05\<rparr>]"

section \<open>Basic facts\<close>

lemma unit_interval_word:
  "0 \<le> real (unat w) / 4294967296 \<and> real (unat w) / 4294967296 < 1" for w :: "32 word"
proof -
  have "unat w < 2 ^ LENGTH(32)" by (rule unsigned_less)
  then have "real (unat w) < real (2 ^ LENGTH(32))" by (simp only: of_nat_less_iff)
  moreover have "0 \<le> real (unat w)" by (rule of_nat_0_le_iff)
  ultimately show ?thesis by simp
qed

lemma ulp_small: "n < 2 ^ 53 \<Longrightarrow> ulp n = 1"
  by (subst ulp.simps) simp

lemma roundDouble_small: "n < 2 ^ 53 \<Longrightarrow> roundDouble n = n"
  by (simp add: roundDouble_def ulp_small)


lemma mulberry32_range: "0 \<le> fst (mulberry32 g) \<and> fst (mulberry32 g) < 1"
  unfolding mulberry32_def Let_def fst_conv by (rule unit_interval_word)

lemma hypot_nonneg: "0 \<le> hypot a b"
  by (simp add: hypot_def)

lemma hypot_axis: "hypot a 0 = \<bar>a\<bar>"
  by (simp add: hypot_def)

lemma hypot_less_iff: "0 < c \<Longrightarrow> hypot a b < c \<longleftrightarrow> a\<^sup>2 + b\<^sup>2 < c\<^sup>2"
  unfolding hypot_def
  by (metis abs_of_pos real_sqrt_abs real_sqrt_less_iff)

section \<open>Growth\<close>

lemma grow_mass: "mass (grow b amount) =
    mass b + amount * (if mass b > 1400 then max 0.25 (min 1 (1400 / mass b)) else 1)"
  by (simp add: grow_def clamp_def Let_def)

lemma grow_rad: "rad (grow b amount) = rad b + 0.22 * (mass (grow b amount) - mass b)"
  by (simp add: grow_def Let_def)

lemma grow_penalty_above: "1400 < (m::real) \<Longrightarrow> max 0.25 (min 1 (1400 / m)) < 1"
  by (simp add: min_def max_def)

text \<open>
  C8. Growth is sub-linear above the soft cap of 1400: for the same strictly positive
  nominal gain, a blob whose mass is above the cap gains strictly less mass than the same
  blob with a mass at or below the cap. Above the cap the gain is scaled by
  \<open>1400 / mass\<close>, floored at 0.25; at or below the cap it is applied in full. The radius
  grows by 0.22 of the applied gain, and does not decrease when the nominal gain is not
  negative.
\<close>

theorem grow_sublinear:
  "(0 < amount \<longrightarrow> 1400 < m1 \<longrightarrow> m2 \<le> 1400 \<longrightarrow>
      mass (grow (b\<lparr>mass := m1\<rparr>) amount) - m1 < mass (grow (b\<lparr>mass := m2\<rparr>) amount) - m2)
   \<and> (1400 < mass b \<longrightarrow> mass (grow b amount) - mass b = amount * max 0.25 (1400 / mass b))
   \<and> (mass b \<le> 1400 \<longrightarrow> mass (grow b amount) - mass b = amount)
   \<and> rad (grow b amount) - rad b = 0.22 * (mass (grow b amount) - mass b)
   \<and> (0 \<le> amount \<longrightarrow> rad b \<le> rad (grow b amount))"
proof (intro conjI impI)
  assume pos: "0 < amount" and hi: "1400 < m1" and lo: "m2 \<le> 1400"
  have "amount * max 0.25 (min 1 (1400 / m1)) < amount * 1"
    using pos grow_penalty_above [OF hi] by (intro mult_strict_left_mono) simp_all
  then show "mass (grow (b\<lparr>mass := m1\<rparr>) amount) - m1
      < mass (grow (b\<lparr>mass := m2\<rparr>) amount) - m2"
    using hi lo by (simp add: grow_mass)
next
  assume "1400 < mass b"
  then have "min 1 (1400 / mass b) = 1400 / mass b" by (simp add: min_def)
  then show "mass (grow b amount) - mass b = amount * max 0.25 (1400 / mass b)"
    using \<open>1400 < mass b\<close> by (simp add: grow_mass)
next
  assume "mass b \<le> 1400"
  then show "mass (grow b amount) - mass b = amount" by (simp add: grow_mass)
next
  show "rad (grow b amount) - rad b = 0.22 * (mass (grow b amount) - mass b)"
    by (simp add: grow_rad)
next
  assume "0 \<le> amount"
  then have "0 \<le> amount * (if mass b > 1400 then max 0.25 (min 1 (1400 / mass b)) else 1)"
    by (intro mult_nonneg_nonneg) (simp_all add: max_def)
  then show "rad b \<le> rad (grow b amount)"
    by (simp add: grow_rad grow_mass)
qed

theorem grow_sublinear_witness:
  "(0::real) < 10 \<and> (1400::real) < 2800 \<and> (1000::real) \<le> 1400
   \<and> mass (grow ((blobAt 0 0 55 36)\<lparr>mass := 2800\<rparr>) 10) - 2800
       < mass (grow ((blobAt 0 0 55 36)\<lparr>mass := 1000\<rparr>) 10) - 1000
   \<and> mass (grow (blobAt 0 0 2800 36) 10) - 2800 = 5
   \<and> mass (grow (blobAt 0 0 1000 36) 10) - 1000 = 10
   \<and> rad (blobAt 0 0 2800 36) \<le> rad (grow (blobAt 0 0 2800 36) 10)"
  using grow_sublinear [of 10 2800 1000 "blobAt 0 0 55 36"]
    grow_sublinear [of 10 2800 1000 "blobAt 0 0 2800 36"]
    grow_sublinear [of 10 2800 1000 "blobAt 0 0 1000 36"]
  by (simp add: blobAt_def)

section \<open>The boundary clamp\<close>

text \<open>
  The knockback displacement follows the clamp in the same step and is not clamped: a blob
  at the right edge with a knockback velocity of 580 ends the step outside the bounds.
\<close>

lemma moveBlob_after_clamp:
  "posx (moveBlob (agentOf ''p'' False 1 0 []) 55 ((blobAt 5190 100 55 36)\<lparr>velx := 580\<rparr>)) = 5193"
  by (simp add: moveBlob_def knockDecay_def moveClamp_def clamp_def Let_def WORLD_def
      blobAt_def agentOf_def baseSpeed_def DT_def TICK_RATE_def)

lemma map_of_mapSet: "map_of (mapSet k v m) = (map_of m)(k \<mapsto> v)"
  by (induction m) (auto simp: fun_eq_iff)

lemma mapGet_mapSet: "mapGet (mapSet k v m) k' = (if k' = k then Some v else mapGet m k')"
  by (simp add: mapGet_def map_of_mapSet)

lemma keys_mapSet:
  "map fst (mapSet k v m) = (if k \<in> fst ` set m then map fst m else map fst m @ [k])"
  by (induction m) (auto simp: rev_image_eqI)

lemma spawn_shape:
  "\<exists>um ur ux uy c g'.
     (0 \<le> um \<and> um < 1) \<and> (0 \<le> ur \<and> ur < 1) \<and> (0 \<le> ux \<and> ux < 1) \<and> (0 \<le> uy \<and> uy < 1)
     \<and> spawnAgent ident nm bt g now =
      (\<lparr>aid = ident, name = nm, isBot = bt, col = c,
        dead = False, aimX = 0, aimY = 0, boost = False, lastSeen = now,
        blobs = [\<lparr>posx = 280 + ux * (WORLD - 560), posy = 280 + uy * (WORLD - 560),
                  velx = 0, vely = 0, mass = (if bt then 32 + um * 70 else 55),
                  rad = (if bt then 22 + ur * 20 else 36), splitTimer = 999\<rparr>]\<rparr>, g')"
proof -
  define g1 where "g1 = (if bt then snd (mulberry32 g) else g)"
  define g2 where "g2 = (if bt then snd (mulberry32 g1) else g1)"
  define g5 where "g5 = snd (mulberry32 (snd (mulberry32 (snd (mulberry32 g2)))))"
  have "spawnAgent ident nm bt g now =
      (\<lparr>aid = ident, name = nm, isBot = bt, col = col (fst (spawnAgent ident nm bt g now)),
        dead = False, aimX = 0, aimY = 0, boost = False, lastSeen = now,
        blobs = [\<lparr>posx = 280 + fst (mulberry32 g5) * (WORLD - 560),
                  posy = 280 + fst (mulberry32 (snd (mulberry32 g5))) * (WORLD - 560),
                  velx = 0, vely = 0, mass = (if bt then 32 + fst (mulberry32 g) * 70 else 55),
                  rad = (if bt then 22 + fst (mulberry32 g1) * 20 else 36),
                  splitTimer = 999\<rparr>]\<rparr>, snd (mulberry32 (snd (mulberry32 g5))))"
    by (simp add: spawnAgent_def Let_def case_prod_beta g1_def g2_def g5_def)
  then show ?thesis
    using mulberry32_range by blast
qed


lemma joinRoom_full: "joinRoom rm nm ident now = Inl e \<longleftrightarrow>
    (e = RoomFull \<and> maxPlayers rm \<le> real (humans rm))"
  by (auto simp: joinRoom_def split: prod.splits)

lemma joinRoom_Inr: "joinRoom rm nm ident now = Inr rm' \<Longrightarrow> real (humans rm) < maxPlayers rm"
  by (auto simp: joinRoom_def split: prod.splits if_splits)

lemma joinRoom_ok:
  assumes "real (humans rm) < maxPlayers rm"
  shows "joinRoom rm nm ident now =
     Inr (rm\<lparr>agents := mapSet ident (fst (spawnAgent ident nm False (rng rm) now)) (agents rm),
             rng := snd (spawnAgent ident nm False (rng rm) now)\<rparr>)"
  using assms by (simp add: joinRoom_def split: prod.splits)

section \<open>Joining a room\<close>

text \<open>
  C10. A join is answered "Room not found" exactly when the code is not in the store, and
  "Room full" exactly when the room exists and its human count has reached
  \<open>maxPlayers\<close>. In every other case it succeeds: the room of that code then holds, under
  the given identity, the freshly spawned human agent (one blob of mass 55 and radius 36,
  inset from the world's edges by 280), whatever was stored under that identity before;
  the other identities keep their agents, and the identity keeps its place in the map
  when it was present.
\<close>

theorem join_outcomes:
  "(join rooms cd nm ident now = Inl RoomNotFound \<longleftrightarrow> rooms cd = None)
   \<and> (join rooms cd nm ident now = Inl RoomFull \<longleftrightarrow>
        (\<exists>rm. rooms cd = Some rm \<and> maxPlayers rm \<le> real (humans rm)))
   \<and> (\<forall>rm. rooms cd = Some rm \<longrightarrow> real (humans rm) < maxPlayers rm \<longrightarrow>
        (\<exists>rm' a b.
           join rooms cd nm ident now = Inr (rooms(cd \<mapsto> rm'))
           \<and> a = fst (spawnAgent ident nm False (rng rm) now)
           \<and> mapGet (agents rm') ident = Some a
           \<and> (\<forall>k. k \<noteq> ident \<longrightarrow> mapGet (agents rm') k = mapGet (agents rm) k)
           \<and> map fst (agents rm') =
               (if ident \<in> fst ` set (agents rm) then map fst (agents rm)
                else map fst (agents rm) @ [ident])
           \<and> aid a = ident \<and> name a = nm \<and> \<not> isBot a \<and> \<not> dead a \<and> lastSeen a = now
           \<and> aimX a = 0 \<and> aimY a = 0 \<and> \<not> boost a
           \<and> blobs a = [b] \<and> mass b = 55 \<and> rad b = 36 \<and> velx b = 0 \<and> vely b = 0
           \<and> splitTimer b = 999
           \<and> 280 \<le> posx b \<and> posx b < WORLD - 280 \<and> 280 \<le> posy b \<and> posy b < WORLD - 280))"
proof (intro conjI allI impI)
  show "join rooms cd nm ident now = Inl RoomNotFound \<longleftrightarrow> rooms cd = None"
    by (auto simp: join_def joinRoom_full split: option.splits sum.splits)
next
  show "join rooms cd nm ident now = Inl RoomFull \<longleftrightarrow>
        (\<exists>rm. rooms cd = Some rm \<and> maxPlayers rm \<le> real (humans rm))"
    by (auto simp: join_def joinRoom_full split: option.splits sum.splits
        dest: joinRoom_Inr)
next
  fix rm
  assume rm: "rooms cd = Some rm" and free: "real (humans rm) < maxPlayers rm"
  obtain um ur ux uy c g' where
    u: "0 \<le> ux \<and> ux < 1" "0 \<le> uy \<and> uy < 1" and
    sp: "spawnAgent ident nm False (rng rm) now =
      (\<lparr>aid = ident, name = nm, isBot = False, col = c,
        dead = False, aimX = 0, aimY = 0, boost = False, lastSeen = now,
        blobs = [\<lparr>posx = 280 + ux * (WORLD - 560), posy = 280 + uy * (WORLD - 560),
                  velx = 0, vely = 0, mass = (if False then 32 + um * 70 else 55),
                  rad = (if False then 22 + ur * 20 else 36), splitTimer = 999\<rparr>]\<rparr>, g')"
    using spawn_shape [of ident nm False "rng rm" now] by blast
  have pos: "280 \<le> 280 + v * (WORLD - 560) \<and> 280 + v * (WORLD - 560) < WORLD - 280"
    if "0 \<le> v \<and> v < 1" for v :: real
    using that by (simp add: WORLD_def)
  let ?a = "fst (spawnAgent ident nm False (rng rm) now)"
  let ?rm' = "rm\<lparr>agents := mapSet ident ?a (agents rm),
                 rng := snd (spawnAgent ident nm False (rng rm) now)\<rparr>"
  have "join rooms cd nm ident now = Inr (rooms(cd \<mapsto> ?rm'))"
    using rm joinRoom_ok [OF free] by (simp add: join_def)
  moreover have "mapGet (agents ?rm') ident = Some ?a"
    by (simp add: mapGet_mapSet)
  moreover have "\<forall>k. k \<noteq> ident \<longrightarrow> mapGet (agents ?rm') k = mapGet (agents rm) k"
    by (simp add: mapGet_mapSet)
  moreover have "map fst (agents ?rm') =
               (if ident \<in> fst ` set (agents rm) then map fst (agents rm)
                else map fst (agents rm) @ [ident])"
    by (simp add: keys_mapSet)
  ultimately show "\<exists>rm' a b.
           join rooms cd nm ident now = Inr (rooms(cd \<mapsto> rm'))
           \<and> a = fst (spawnAgent ident nm False (rng rm) now)
           \<and> mapGet (agents rm') ident = Some a
           \<and> (\<forall>k. k \<noteq> ident \<longrightarrow> mapGet (agents rm') k = mapGet (agents rm) k)
           \<and> map fst (agents rm') =
               (if ident \<in> fst ` set (agents rm) then map fst (agents rm)
                else map fst (agents rm) @ [ident])
           \<and> aid a = ident \<and> name a = nm \<and> \<not> isBot a \<and> \<not> dead a \<and> lastSeen a = now
           \<and> aimX a = 0 \<and> aimY a = 0 \<and> \<not> boost a
           \<and> blobs a = [b] \<and> mass b = 55 \<and> rad b = 36 \<and> velx b = 0 \<and> vely b = 0
           \<and> splitTimer b = 999
           \<and> 280 \<le> posx b \<and> posx b < WORLD - 280 \<and> 280 \<le> posy b \<and> posy b < WORLD - 280"
    using pos [OF u(1)] pos [OF u(2)]
    apply (intro exI [of _ ?rm'] exI [of _ ?a])
    apply (rule exI [of _ "\<lparr>posx = 280 + ux * (WORLD - 560), posy = 280 + uy * (WORLD - 560),
                  velx = 0, vely = 0, mass = 55, rad = 36, splitTimer = 999\<rparr>"])
    apply (simp only: sp fst_conv)
    apply simp
    done
qed


theorem join_outcomes_witness:
  "storeOf botRoom ''ABCDEF'' = Some botRoom \<and> real (humans botRoom) < maxPlayers botRoom
   \<and> (\<exists>rm' a b.
         join (storeOf botRoom) ''ABCDEF'' ''Ann'' ''bot_0_ABCDEF'' 5
           = Inr ((storeOf botRoom)(''ABCDEF'' \<mapsto> rm'))
         \<and> mapGet (agents rm') ''bot_0_ABCDEF'' = Some a
         \<and> map fst (agents rm') = [''bot_0_ABCDEF'']
         \<and> \<not> isBot a \<and> blobs a = [b] \<and> mass b = 55 \<and> rad b = 36)
   \<and> join (storeOf fullRoom) ''ABCDEF'' ''Ann'' ''h9'' 5 = Inl RoomFull
   \<and> join (storeOf fullRoom) ''XYZXYZ'' ''Ann'' ''h9'' 5 = Inl RoomNotFound"
proof -
  have 1: "storeOf botRoom ''ABCDEF'' = Some botRoom"
    by (simp add: storeOf_def botRoom_def roomOf_def)
  have 2: "real (humans botRoom) < maxPlayers botRoom"
    by (simp add: humans_def botRoom_def roomOf_def mapValues_def agentOf_def)
  have 3: "storeOf fullRoom ''ABCDEF'' = Some fullRoom"
    by (simp add: storeOf_def fullRoom_def roomOf_def)
  have 4: "maxPlayers fullRoom \<le> real (humans fullRoom)"
    by (simp add: humans_def fullRoom_def roomOf_def mapValues_def agentOf_def)
  have 5: "storeOf fullRoom ''XYZXYZ'' = None"
    by (simp add: storeOf_def fullRoom_def roomOf_def)
  have 6: "map fst (agents botRoom) = [''bot_0_ABCDEF'']"
    by (simp add: botRoom_def roomOf_def)
  have 7: "''bot_0_ABCDEF'' \<in> fst ` set (agents botRoom)"
    by (simp add: botRoom_def roomOf_def)
  note J = join_outcomes [of "storeOf botRoom" "''ABCDEF''" "''Ann''" "''bot_0_ABCDEF''" 5,
      THEN conjunct2, THEN conjunct2, rule_format, OF 1 2]
  from J obtain rm' a b where
    "join (storeOf botRoom) ''ABCDEF'' ''Ann'' ''bot_0_ABCDEF'' 5
           = Inr ((storeOf botRoom)(''ABCDEF'' \<mapsto> rm'))"
    "mapGet (agents rm') ''bot_0_ABCDEF'' = Some a"
    "map fst (agents rm') =
       (if ''bot_0_ABCDEF'' \<in> fst ` set (agents botRoom) then map fst (agents botRoom)
        else map fst (agents botRoom) @ [''bot_0_ABCDEF''])"
    "\<not> isBot a" "blobs a = [b]" "mass b = 55" "rad b = 36"
    by blast
  then have A: "\<exists>rm' a b.
         join (storeOf botRoom) ''ABCDEF'' ''Ann'' ''bot_0_ABCDEF'' 5
           = Inr ((storeOf botRoom)(''ABCDEF'' \<mapsto> rm'))
         \<and> mapGet (agents rm') ''bot_0_ABCDEF'' = Some a
         \<and> map fst (agents rm') = [''bot_0_ABCDEF'']
         \<and> \<not> isBot a \<and> blobs a = [b] \<and> mass b = 55 \<and> rad b = 36"
    unfolding 6 using 7 by (intro exI [of _ rm'] exI [of _ a] exI [of _ b]) simp
  have B: "join (storeOf fullRoom) ''ABCDEF'' ''Ann'' ''h9'' 5 = Inl RoomFull"
    using join_outcomes [of "storeOf fullRoom" "''ABCDEF''" "''Ann''" "''h9''" 5,
      THEN conjunct2, THEN conjunct1] 3 4 by blast
  have C: "join (storeOf fullRoom) ''XYZXYZ'' ''Ann'' ''h9'' 5 = Inl RoomNotFound"
    using join_outcomes [of "storeOf fullRoom" "''XYZXYZ''" "''Ann''" "''h9''" 5,
      THEN conjunct1] 5 by blast
  show ?thesis
    using 1 2 A B C by (intro conjI)
qed

section \<open>The voluntary split\<close>

lemma largest_scan:
  assumes "b0 < m" "m \<le> n" "n \<le> length bs"
    and "\<forall>i<m. rad (bs ! i) \<le> rad (bs ! b0)"
    and "\<forall>i<b0. rad (bs ! i) < rad (bs ! b0)"
  shows "foldl (\<lambda>best i. if rad (bs ! i) > rad (bs ! best) then i else best) b0 [m..<n] < n
    \<and> (\<forall>i<n. rad (bs ! i)
          \<le> rad (bs ! foldl (\<lambda>best i. if rad (bs ! i) > rad (bs ! best) then i else best) b0 [m..<n]))
    \<and> (\<forall>i<foldl (\<lambda>best i. if rad (bs ! i) > rad (bs ! best) then i else best) b0 [m..<n].
          rad (bs ! i)
          < rad (bs ! foldl (\<lambda>best i. if rad (bs ! i) > rad (bs ! best) then i else best) b0 [m..<n]))"
  using assms
proof (induction n)
  case 0
  then show ?case by simp
next
  case (Suc n)
  let ?f = "\<lambda>best i. if rad (bs ! i) > rad (bs ! best) then i else best"
  show ?case
  proof (cases "m = Suc n")
    case True
    with Suc.prems show ?thesis by simp
  next
    case False
    with Suc.prems have mn: "m \<le> n" "n \<le> length bs" by simp_all
    note IH = Suc.IH [OF Suc.prems(1) mn Suc.prems(4,5)]
    let ?r = "foldl ?f b0 [m..<n]"
    have step: "foldl ?f b0 [m..<Suc n] = ?f ?r n"
      using mn by simp
    show ?thesis
    proof (cases "rad (bs ! n) > rad (bs ! ?r)")
      case True
      then have "foldl ?f b0 [m..<Suc n] = n" using step by simp
      moreover have "\<forall>i<Suc n. rad (bs ! i) \<le> rad (bs ! n)"
        using IH True by (auto simp: less_Suc_eq)
      moreover have "\<forall>i<n. rad (bs ! i) < rad (bs ! n)"
        using IH True by fastforce
      ultimately show ?thesis by simp
    next
      case False
      then have "foldl ?f b0 [m..<Suc n] = ?r" using step by simp
      moreover have "\<forall>i<Suc n. rad (bs ! i) \<le> rad (bs ! ?r)"
        using IH False by (auto simp: less_Suc_eq)
      ultimately show ?thesis using IH by auto
    qed
  qed
qed

lemma largest_is_largest:
  assumes "bs \<noteq> []"
  shows "largest bs < length bs
    \<and> (\<forall>i<length bs. rad (bs ! i) \<le> rad (bs ! largest bs))
    \<and> (\<forall>i<largest bs. rad (bs ! i) < rad (bs ! largest bs))"
proof -
  have "0 < length bs" using assms by simp
  then have "(0::nat) < 1" "1 \<le> length bs" "length bs \<le> length bs"
    "\<forall>i<1. rad (bs ! i) \<le> rad (bs ! 0)" "\<forall>i<0::nat. rad (bs ! i) < rad (bs ! 0)"
    by (simp_all add: Suc_le_eq)
  from largest_scan [OF this] show ?thesis
    unfolding largest_def by simp
qed

lemma hypot_scale: "hypot (a * c) (b * c) = hypot a b * \<bar>c\<bar>"
proof -
  have "(a * c)\<^sup>2 + (b * c)\<^sup>2 = (a\<^sup>2 + b\<^sup>2) * c\<^sup>2"
    by (simp add: power_mult_distrib distrib_right)
  then show ?thesis
    by (simp add: hypot_def real_sqrt_mult)
qed

lemma normalize2D_zero: "hypot a b < 1 / 1000000 \<Longrightarrow> normalize2D a b = (0, 0)"
  by (simp add: normalize2D_def Let_def)

lemma normalize2D_unit:
  assumes "1 / 1000000 \<le> hypot a b"
  shows "normalize2D a b = (a / hypot a b, b / hypot a b)"
    and "hypot (fst (normalize2D a b)) (snd (normalize2D a b)) = 1"
proof -
  have pos: "0 < hypot a b" using assms by simp
  show n: "normalize2D a b = (a / hypot a b, b / hypot a b)"
    using assms by (simp add: normalize2D_def Let_def)
  have "hypot (a * (1 / hypot a b)) (b * (1 / hypot a b)) = hypot a b * \<bar>1 / hypot a b\<bar>"
    by (rule hypot_scale)
  also have "\<dots> = 1" using pos by simp
  finally show "hypot (fst (normalize2D a b)) (snd (normalize2D a b)) = 1"
    by (simp add: n)
qed


section \<open>Floors of mass and radius\<close>

lemma agentsOK_iff:
  "agentsOK m \<longleftrightarrow> (\<forall>k a b. (k, a) \<in> set m \<longrightarrow> b \<in> set (blobs a) \<longrightarrow> blobOK b)"
  by (auto simp: agentsOK_def list_all_iff)

lemma agentsOK_Cons: "agentsOK ((k, a) # m) \<longleftrightarrow> list_all blobOK (blobs a) \<and> agentsOK m"
  by (simp add: agentsOK_def)

lemma agentsOK_Nil: "agentsOK []"
  by (simp add: agentsOK_def)

lemma agentsOK_update:
  "agentsOK m \<Longrightarrow> list_all blobOK (blobs a) \<Longrightarrow> agentsOK (m[i := (k, a)])"
  unfolding agentsOK_iff
  by (auto simp: list_all_iff dest!: subsetD [OF set_update_subset_insert])

lemma agentsOK_mapSet:
  "agentsOK m \<Longrightarrow> list_all blobOK (blobs a) \<Longrightarrow> agentsOK (mapSet k a m)"
  by (induction m) (auto simp: agentsOK_def)

lemma agentsOK_nth: "agentsOK m \<Longrightarrow> i < length m \<Longrightarrow> list_all blobOK (blobs (snd (m ! i)))"
  unfolding agentsOK_iff list_all_iff
  by (metis nth_mem prod.collapse)

subsection \<open>Removal, bot AI\<close>

lemma removeInactive_OK: "roomOK rm \<Longrightarrow> roomOK (removeInactive now rm)"
  by (auto simp: roomOK_def removeInactive_def agentsOK_iff)

lemma setAim_blobs: "blobs (setAim a ax ay bst) = blobs a"
  by (simp add: setAim_def Let_def)

lemma botAgent_blobs: "blobs (fst (botAgent ags pels a g mr)) = blobs a"
  by (simp add: botAgent_def setAim_blobs Let_def split: list.splits prod.splits option.splits)

lemma botAIstep_OK:
  assumes "roomOK (fst st)" "i < length (agents (fst st))"
  shows "roomOK (fst (botAIstep st i)) \<and> length (agents (fst (botAIstep st i))) = length (agents (fst st))"
proof -
  obtain rm mr where st: "st = (rm, mr)" by (cases st)
  obtain a' g' mr' where
    r: "botAgent (mapValues (agents rm)) (pellets rm) (snd (agents rm ! i)) (rng rm) mr = (a', g', mr')"
    by (cases "botAgent (mapValues (agents rm)) (pellets rm) (snd (agents rm ! i)) (rng rm) mr")
  have "blobs a' = blobs (snd (agents rm ! i))"
    using botAgent_blobs [of "mapValues (agents rm)" "pellets rm" "snd (agents rm ! i)" "rng rm" mr]
    by (simp add: r)
  then have "list_all blobOK (blobs a')"
    using assms agentsOK_nth [of "agents rm" i] by (simp add: st roomOK_def)
  then show ?thesis
    using assms by (simp add: st botAIstep_def r roomOK_def agentsOK_update)
qed

lemma botAI_fold_OK:
  "roomOK (fst st) \<Longrightarrow> \<forall>i \<in> set is. i < length (agents (fst st)) \<Longrightarrow>
     roomOK (fst (foldl botAIstep st is))
     \<and> length (agents (fst (foldl botAIstep st is))) = length (agents (fst st))"
proof (induction "is" arbitrary: st)
  case Nil
  then show ?case by simp
next
  case (Cons i "is")
  have s: "roomOK (fst (botAIstep st i))"
    "length (agents (fst (botAIstep st i))) = length (agents (fst st))"
    using botAIstep_OK [of st i] Cons.prems by simp_all
  show ?case
    using Cons.IH [of "botAIstep st i"] s Cons.prems by simp
qed

lemma botAI_OK: "roomOK rm \<Longrightarrow> roomOK (fst (botAI rm mr))"
  using botAI_fold_OK [of "(rm, mr)" "[0..<length (agents rm)]"]
  by (simp add: botAI_def)

subsection \<open>Movement and decay\<close>

lemma knockDecay_floors: "10 \<le> mass (knockDecay a tot b) \<and> 14 \<le> rad (knockDecay a tot b)"
  by (simp add: knockDecay_def Let_def)

lemma moveBlob_floors: "10 \<le> mass (moveBlob a tot b) \<and> 14 \<le> rad (moveBlob a tot b)"
  by (simp add: moveBlob_def knockDecay_floors)

lemma moveBlob_OK: "blobOK (moveBlob a tot b)"
  using moveBlob_floors [of a tot b] by (simp add: blobOK_def)

lemma moveAgent_OK:
  "\<forall>b \<in> set (blobs a). blobOK b \<Longrightarrow> b' \<in> set (blobs (moveAgent a)) \<Longrightarrow> blobOK b'"
  by (auto simp: moveAgent_def Let_def moveBlob_OK split: if_splits)

lemma movement_OK: "roomOK rm \<Longrightarrow> roomOK (movement rm)"
  unfolding roomOK_def movement_def agentsOK_iff
  by (auto dest: moveAgent_OK [rotated])


subsection \<open>Pellets\<close>

lemma grow_mono: "0 \<le> amount \<Longrightarrow> mass b \<le> mass (grow b amount) \<and> rad b \<le> rad (grow b amount)"
proof -
  assume "0 \<le> amount"
  then have "0 \<le> amount * (if mass b > 1400 then max 0.25 (min 1 (1400 / mass b)) else 1)"
    by (intro mult_nonneg_nonneg) (simp_all add: max_def)
  then show ?thesis by (simp add: grow_rad grow_mass)
qed

lemma grow_OK: "0 \<le> amount \<Longrightarrow> blobOK b \<Longrightarrow> blobOK (grow b amount)"
  using grow_mono [of amount b] by (simp add: blobOK_def)

lemma blobEats_OK:
  "blobOK b \<Longrightarrow> \<forall>p \<in> set ps. 0 \<le> pelv p \<Longrightarrow>
     blobOK (fst (blobEats b ps)) \<and> set (snd (blobEats b ps)) \<subseteq> set ps"
  unfolding blobEats_def
  by (induction ps) (auto simp: eatPellet_def Let_def grow_OK split: prod.splits)

lemma blobsEat_OK:
  "\<forall>b \<in> set bs. blobOK b \<Longrightarrow> \<forall>p \<in> set ps. 0 \<le> pelv p \<Longrightarrow>
     (\<forall>b \<in> set (fst (blobsEat bs ps)). blobOK b) \<and> set (snd (blobsEat bs ps)) \<subseteq> set ps"
proof (induction bs arbitrary: ps)
  case Nil
  then show ?case by simp
next
  case (Cons b bs)
  obtain b' ps1 where 1: "blobEats b ps = (b', ps1)" by (cases "blobEats b ps")
  have b': "blobOK b'" "set ps1 \<subseteq> set ps"
    using blobEats_OK [of b ps] Cons.prems by (simp_all add: 1)
  then have "\<forall>p \<in> set ps1. 0 \<le> pelv p" using Cons.prems by auto
  from Cons.IH [OF _ this] Cons.prems b' show ?case
    by (auto simp: 1 split: prod.splits)
qed

lemma agentsEat_OK:
  "agentsOK m \<Longrightarrow> \<forall>p \<in> set ps. 0 \<le> pelv p \<Longrightarrow>
     agentsOK (fst (agentsEat m ps)) \<and> set (snd (agentsEat m ps)) \<subseteq> set ps"
proof (induction m ps rule: agentsEat.induct)
  case (1 ps)
  then show ?case by (simp add: agentsOK_Nil)
next
  case (2 k a m ps)
  show ?case
  proof (cases "dead a")
    case True
    with 2 show ?thesis
      by (auto simp: agentsOK_Cons split: prod.splits)
  next
    case False
    obtain bs ps1 where e: "blobsEat (blobs a) ps = (bs, ps1)" by (cases "blobsEat (blobs a) ps")
    have bs: "\<forall>b \<in> set bs. blobOK b" "set ps1 \<subseteq> set ps"
      using blobsEat_OK [of "blobs a" ps] "2.prems" by (simp_all add: e agentsOK_Cons list_all_iff)
    then have "\<forall>p \<in> set ps1. 0 \<le> pelv p" using "2.prems" by auto
    from "2.IH"(2) [OF False e [symmetric] _ this] "2.prems" bs False show ?thesis
      by (auto simp: e agentsOK_Cons list_all_iff split: prod.splits)
  qed
qed

lemma eatPellets_OK: "roomOK rm \<Longrightarrow> roomOK (eatPellets rm)"
  using agentsEat_OK [of "agents rm" "pellets rm"]
  by (auto simp: roomOK_def eatPellets_def list_all_iff split: prod.splits)

lemma newPellet_value: "1 \<le> pelv (fst (newPellet g))"
proof -
  have "0 \<le> fst (mulberry32 s) * 2" for s
    using mulberry32_range [of s] by simp
  then show ?thesis
    by (simp add: newPellet_def Let_def case_prod_beta)
qed

lemma refill_OK:
  "\<forall>p \<in> set ps. 0 \<le> pelv p \<Longrightarrow> \<forall>p \<in> set (fst (refill ps g)). 0 \<le> pelv p"
proof (induction ps g rule: refill.induct)
  case (1 ps g)
  show ?case
  proof (cases "length ps < PELLET_TARGET")
    case True
    have "0 \<le> pelv (fst (newPellet g))" using newPellet_value [of g] by simp
    with "1.prems" have "\<forall>p \<in> set (ps @ [fst (newPellet g)]). 0 \<le> pelv p" by auto
    from "1.IH" [OF True this] True show ?thesis
      by (subst refill.simps) simp
  next
    case False
    with "1.prems" show ?thesis by (subst refill.simps) simp
  qed
qed

lemma refillPellets_OK: "roomOK rm \<Longrightarrow> roomOK (refillPellets rm)"
  using refill_OK [of "pellets rm" "rng rm"]
  by (auto simp: roomOK_def refillPellets_def list_all_iff split: prod.splits)


subsection \<open>Viruses\<close>

lemma set_removeAt: "set (removeAt i xs) \<subseteq> set xs"
  unfolding removeAt_def using set_take_subset [of i xs] set_drop_subset [of "Suc i" xs] by auto

lemma length_removeAt: "i < length xs \<Longrightarrow> Suc (length (removeAt i xs)) = length xs"
  by (auto simp: removeAt_def)

lemma makePieces_length: "length (fst (makePieces k b pm pr mr)) = k"
  by (induction k arbitrary: mr) (simp_all add: Let_def case_prod_beta)

lemma makePieces_fields:
  "f \<in> set (fst (makePieces k b pm pr mr)) \<Longrightarrow> mass f = pm \<and> rad f = pr \<and> splitTimer f = 0"
  by (induction k arbitrary: mr) (auto simp: Let_def case_prod_beta)

lemma pop_OK:
  assumes "blobOK b" "\<forall>x \<in> set bs. blobOK x"
  shows "\<forall>x \<in> set (fst (pop bi b bs mr)). blobOK x"
proof -
  have "blobOK f" if "f \<in> set (fst (makePieces 8 b (mass b / 8) (max 14 (rad b / sqrt 8)) mr))" for f
    using makePieces_fields [OF that] assms(1) by (simp add: blobOK_def)
  then show ?thesis
    using assms(2) set_removeAt [of bi bs]
    by (auto simp: pop_def Let_def case_prod_beta)
qed

lemma pop_length: "bi < length bs \<Longrightarrow> length (fst (pop bi b bs mr)) = length bs + 7"
  using length_removeAt [of bi bs]
  by (simp add: pop_def Let_def case_prod_beta makePieces_length)

lemma virusLoop_OK:
  "blobOK b \<Longrightarrow> \<forall>x \<in> set bs. blobOK x \<Longrightarrow> \<forall>x \<in> set (fst (virusLoop bi vs b bs mr)). blobOK x"
proof (induction vs arbitrary: b bs mr)
  case Nil
  then show ?case by simp
next
  case (Cons v vs)
  let ?b' = "b\<lparr>velx := velx b + fst (normalize2D (posx b - virx v) (posy b - viry v)) * 220,
               vely := vely b + snd (normalize2D (posx b - virx v) (posy b - viry v)) * 220\<rparr>"
  have b': "blobOK ?b'" using Cons.prems(1) by (simp add: blobOK_def)
  have upd: "\<forall>x \<in> set (bs[bi := ?b']). blobOK x"
    using Cons.prems(2) b' by (auto dest!: subsetD [OF set_update_subset_insert])
  have popped: "\<forall>x \<in> set (fst (pop bi b bs mr)). blobOK x"
    using pop_OK [OF Cons.prems] .
  show ?case
    using Cons.IH [OF Cons.prems] Cons.IH [OF b' upd]
      Cons.IH [OF Cons.prems(1) popped, of "snd (pop bi b bs mr)"]
    by (simp add: Let_def case_prod_beta)
qed

lemma virusLoop_length:
  "bi < length bs \<Longrightarrow> length bs \<le> length (fst (virusLoop bi vs b bs mr))"
proof (induction vs arbitrary: b bs mr)
  case Nil
  then show ?case by simp
next
  case (Cons v vs)
  have 1: "bi < length (fst (pop bi b bs mr))" using pop_length [OF Cons.prems] Cons.prems by simp
  show ?case
    using Cons.IH [OF Cons.prems] Cons.IH [OF 1, of b "snd (pop bi b bs mr)"]
      Cons.IH [of "bs[bi := b']" for b'] Cons.prems pop_length [OF Cons.prems, of b mr]
    by (auto simp: Let_def case_prod_beta)
qed

lemma virusBlobs_OK:
  "n \<le> length bs \<Longrightarrow> \<forall>x \<in> set bs. blobOK x \<Longrightarrow> \<forall>x \<in> set (fst (virusBlobs n vs bs mr)). blobOK x"
proof (induction n arbitrary: bs mr)
  case 0
  then show ?case by simp
next
  case (Suc bi)
  have lt: "bi < length bs" using Suc.prems by simp
  then have b: "blobOK (bs ! bi)" using Suc.prems by simp
  have 1: "bi \<le> length (fst (virusLoop bi vs (bs ! bi) bs mr))"
    using virusLoop_length [OF lt, of vs "bs ! bi" mr] lt by simp
  have 2: "\<forall>x \<in> set (fst (virusLoop bi vs (bs ! bi) bs mr)). blobOK x"
    using virusLoop_OK [OF b Suc.prems(2)] .
  show ?case
    using Suc.IH [OF 1 2] by (simp add: case_prod_beta)
qed

lemma virusAgents_OK: "agentsOK m \<Longrightarrow> agentsOK (fst (virusAgents m vs mr))"
proof (induction m arbitrary: mr)
  case Nil
  then show ?case by simp
next
  case (Cons ka m)
  obtain k a where ka: "ka = (k, a)" by (cases ka)
  have "list_all blobOK (fst (virusBlobs (length (blobs a)) vs (blobs a) mr))"
    using virusBlobs_OK [of "length (blobs a)" "blobs a" vs mr] Cons.prems
    by (simp add: ka agentsOK_Cons list_all_iff)
  then show ?case
    using Cons.IH Cons.prems by (simp add: ka agentsOK_Cons case_prod_beta)
qed

lemma virusPhase_OK: "roomOK rm \<Longrightarrow> roomOK (fst (virusPhase rm mr))"
  using virusAgents_OK [of "agents rm" "viruses rm" mr]
  by (simp add: roomOK_def virusPhase_def case_prod_beta)

subsection \<open>Engulfment\<close>

lemma eatBlob_mono:
  "0 < mass p \<Longrightarrow> mass e \<le> mass (eatBlob e p) \<and> rad e \<le> rad (eatBlob e p)"
proof -
  assume "0 < mass p"
  then have "0 \<le> mass p * clamp (mass p / max 1 (mass e)) 0.12 0.50"
    by (intro mult_nonneg_nonneg) (simp_all add: clamp_def max_def)
  then show ?thesis
    using grow_mono by (simp add: eatBlob_def Let_def)
qed

lemma eatBlob_OK: "blobOK e \<Longrightarrow> blobOK p \<Longrightarrow> blobOK (eatBlob e p)"
  using eatBlob_mono [of p e] by (simp add: blobOK_def)

lemma set_update_OK:
  "\<forall>x \<in> set xs. P x \<Longrightarrow> P y \<Longrightarrow> \<forall>x \<in> set (xs[i := y]). P x"
  by (auto dest!: subsetD [OF set_update_subset_insert])

lemma set_removeAt_OK: "\<forall>x \<in> set xs. P x \<Longrightarrow> \<forall>x \<in> set (removeAt i xs). P x"
  using set_removeAt [of i xs] by auto

lemma engulfInner_OK:
  assumes "ai < length As" "\<forall>x \<in> set As. blobOK x" "\<forall>x \<in> set Bs. blobOK x"
  shows "(\<forall>x \<in> set (fst (engulfInner ai n As Bs)). blobOK x)
       \<and> (\<forall>x \<in> set (fst (snd (engulfInner ai n As Bs))). blobOK x)"
  using assms
proof (induction n arbitrary: As Bs)
  case 0
  then show ?case by simp
next
  case (Suc bi)
  show ?case
  proof (cases "bi \<ge> length Bs")
    case True
    then show ?thesis using Suc.IH [OF Suc.prems] by simp
  next
    case False
    then have bi: "bi < length Bs" by simp
    have ab: "blobOK (As ! ai)" using Suc.prems by simp
    have bb: "blobOK (Bs ! bi)" using Suc.prems bi by simp
    have 1: "ai < length (As[ai := eatBlob (As ! ai) (Bs ! bi)])" using Suc.prems by simp
    have 2: "\<forall>x \<in> set (As[ai := eatBlob (As ! ai) (Bs ! bi)]). blobOK x"
      using set_update_OK [OF Suc.prems(2) eatBlob_OK [OF ab bb]] .
    have 3: "\<forall>x \<in> set (removeAt bi Bs). blobOK x"
      using set_removeAt_OK [OF Suc.prems(3)] .
    have 4: "\<forall>x \<in> set (removeAt ai As). blobOK x"
      using set_removeAt_OK [OF Suc.prems(2)] .
    have 5: "\<forall>x \<in> set (Bs[bi := eatBlob (Bs ! bi) (As ! ai)]). blobOK x"
      using set_update_OK [OF Suc.prems(3) eatBlob_OK [OF bb ab]] .
    consider (a) "engulfs (As ! ai) (Bs ! bi)"
      | (b) "\<not> engulfs (As ! ai) (Bs ! bi)" "engulfs (Bs ! bi) (As ! ai)"
      | (c) "\<not> engulfs (As ! ai) (Bs ! bi)" "\<not> engulfs (Bs ! bi) (As ! ai)"
      by blast
    then show ?thesis
    proof cases
      case a
      then show ?thesis
        using Suc.IH [OF 1 2 3] bi by (simp add: Let_def case_prod_beta)
    next
      case b
      then show ?thesis
        using 4 5 bi by (simp add: Let_def)
    next
      case c
      then show ?thesis
        using Suc.IH [OF Suc.prems] bi by (simp add: Let_def)
    qed
  qed
qed

lemma engulfOuter_OK:
  assumes "\<forall>x \<in> set As. blobOK x" "\<forall>x \<in> set Bs. blobOK x"
  shows "(\<forall>x \<in> set (fst (engulfOuter n As Bs)). blobOK x)
       \<and> (\<forall>x \<in> set (fst (snd (engulfOuter n As Bs))). blobOK x)"
  using assms
proof (induction n arbitrary: As Bs)
  case 0
  then show ?case by simp
next
  case (Suc ai)
  show ?case
  proof (cases "ai \<ge> length As")
    case True
    then show ?thesis using Suc.IH [OF Suc.prems] by simp
  next
    case False
    then have ai: "ai < length As" by simp
    note inner = engulfInner_OK [OF ai Suc.prems, of "length Bs"]
    show ?thesis
      using Suc.IH [OF inner [THEN conjunct1] inner [THEN conjunct2]] ai
      by (simp add: case_prod_beta)
  qed
qed

lemma markDead_blobs: "blobs (markDead a bs) = bs"
  by (simp add: markDead_def)

lemma engulfPair_blobs:
  "blobs (fst (engulfPair A B)) = fst (engulfBlobs (blobs A) (blobs B))"
  "blobs (fst (snd (engulfPair A B))) = fst (snd (engulfBlobs (blobs A) (blobs B)))"
  "snd (snd (engulfPair A B)) = snd (snd (engulfBlobs (blobs A) (blobs B)))"
  by (simp_all add: engulfPair_def case_prod_beta markDead_blobs)

lemma engulfPair_OK:
  assumes "list_all blobOK (blobs A)" "list_all blobOK (blobs B)"
  shows "list_all blobOK (blobs (fst (engulfPair A B)))
       \<and> list_all blobOK (blobs (fst (snd (engulfPair A B))))"
proof -
  have "\<forall>x \<in> set (blobs A). blobOK x" "\<forall>x \<in> set (blobs B). blobOK x"
    using assms by (simp_all add: list_all_iff)
  from engulfOuter_OK [OF this, of "length (blobs A)"] show ?thesis
    unfolding engulfPair_blobs engulfBlobs_def list_all_iff .
qed


lemma arrOK_iff: "arrOK arr \<longleftrightarrow> (\<forall>a \<in> set arr. list_all blobOK (blobs a))"
  by (simp add: arrOK_def list_all_iff)

lemma engulfJ_OK:
  assumes "arrOK (fst st)" "i < length (fst st)" "j < length (fst st)"
  shows "arrOK (fst (engulfJ i st j)) \<and> length (fst (engulfJ i st j)) = length (fst st)"
proof -
  obtain arr tr where st: "st = (arr, tr)" by (cases st)
  have a: "list_all blobOK (blobs (arr ! i))" "list_all blobOK (blobs (arr ! j))"
    using assms by (simp_all add: st arrOK_iff)
  note p = engulfPair_OK [OF a]
  have "\<forall>a \<in> set arr. list_all blobOK (blobs a)"
    using assms(1) by (simp add: st arrOK_iff)
  from set_update_OK [OF set_update_OK [OF this p [THEN conjunct1]] p [THEN conjunct2]]
  have "arrOK (arr[i := fst (engulfPair (arr ! i) (arr ! j)),
                   j := fst (snd (engulfPair (arr ! i) (arr ! j)))])"
    by (simp add: arrOK_iff)
  then show ?thesis
    using assms(1) by (simp add: st engulfJ_def case_prod_beta)
qed

lemma engulfJ_fold_OK:
  "arrOK (fst st) \<Longrightarrow> i < length (fst st) \<Longrightarrow> \<forall>j \<in> set js. j < length (fst st) \<Longrightarrow>
     arrOK (fst (foldl (engulfJ i) st js))
     \<and> length (fst (foldl (engulfJ i) st js)) = length (fst st)"
proof (induction js arbitrary: st)
  case Nil
  then show ?case by simp
next
  case (Cons j js)
  have s: "arrOK (fst (engulfJ i st j))" "length (fst (engulfJ i st j)) = length (fst st)"
    using engulfJ_OK [of st i j] Cons.prems by simp_all
  show ?case
    using Cons.IH [of "engulfJ i st j"] s Cons.prems by simp
qed

lemma engulfI_OK:
  assumes "arrOK (fst st)" "i < length (fst st)"
  shows "arrOK (fst (engulfI st i)) \<and> length (fst (engulfI st i)) = length (fst st)"
proof -
  obtain arr tr where st: "st = (arr, tr)" by (cases st)
  show ?thesis
    using engulfJ_fold_OK [of st i "[Suc i..<length arr]"] assms
    by (simp add: st engulfI_def)
qed

lemma engulfI_fold_OK:
  "arrOK (fst st) \<Longrightarrow> \<forall>i \<in> set is. i < length (fst st) \<Longrightarrow>
     arrOK (fst (foldl engulfI st is)) \<and> length (fst (foldl engulfI st is)) = length (fst st)"
proof (induction "is" arbitrary: st)
  case Nil
  then show ?case by simp
next
  case (Cons i "is")
  have s: "arrOK (fst (engulfI st i))" "length (fst (engulfI st i)) = length (fst st)"
    using engulfI_OK [of st i] Cons.prems by simp_all
  show ?case
    using Cons.IH [of "engulfI st i"] s Cons.prems by simp
qed

lemma engulfAll_OK:
  "arrOK arr \<Longrightarrow> arrOK (fst (engulfAll arr)) \<and> length (fst (engulfAll arr)) = length arr"
  using engulfI_fold_OK [of "(arr, [])" "[0..<length arr]"] by (simp add: engulfAll_def)

lemma engulfPhase_OK: "roomOK rm \<Longrightarrow> roomOK (engulfPhase rm)"
proof -
  assume ok: "roomOK rm"
  then have "arrOK (mapValues (agents rm))"
    by (auto simp: roomOK_def arrOK_iff mapValues_def agentsOK_iff list_all_iff)
  then have "arrOK (fst (engulfAll (mapValues (agents rm))))"
    using engulfAll_OK by blast
  then have "agentsOK (zip (map fst (agents rm)) (fst (engulfAll (mapValues (agents rm)))))"
    by (auto simp: arrOK_iff agentsOK_iff list_all_iff dest: set_zip_rightD)
  then show ?thesis using ok by (simp add: roomOK_def engulfPhase_def)
qed

subsection \<open>Respawn, join, input\<close>

lemma spawn_OK: "list_all blobOK (blobs (fst (spawnAgent ident nm bt g now)))"
proof -
  obtain um ur ux uy c g' where
    u: "0 \<le> um \<and> um < 1" "0 \<le> ur \<and> ur < 1" and
    sp: "spawnAgent ident nm bt g now =
      (\<lparr>aid = ident, name = nm, isBot = bt, col = c,
        dead = False, aimX = 0, aimY = 0, boost = False, lastSeen = now,
        blobs = [\<lparr>posx = 280 + ux * (WORLD - 560), posy = 280 + uy * (WORLD - 560),
                  velx = 0, vely = 0, mass = (if bt then 32 + um * 70 else 55),
                  rad = (if bt then 22 + ur * 20 else 36), splitTimer = 999\<rparr>]\<rparr>, g')"
    using spawn_shape [of ident nm bt g now] by blast
  have "0 \<le> um * 70" "0 \<le> ur * 20" using u by simp_all
  then show ?thesis
    by (simp add: sp blobOK_def)
qed

lemma respawnStep_OK: "agentsOK (fst st) \<Longrightarrow> agentsOK (fst (respawnStep now st a))"
  using spawn_OK [of "aid a" "name a" True "snd st" now]
  by (cases st) (auto simp: respawnStep_def agentsOK_mapSet split: prod.splits)

lemma respawn_fold_OK: "agentsOK (fst st) \<Longrightarrow> agentsOK (fst (foldl (respawnStep now) st as))"
  by (induction as arbitrary: st) (simp_all add: respawnStep_OK)

lemma respawn_OK: "roomOK rm \<Longrightarrow> roomOK (respawn now rm)"
  using respawn_fold_OK [of "(agents rm, rng rm)" now "mapValues (agents rm)"]
  by (simp add: roomOK_def respawn_def case_prod_beta)

lemma tickRoom_OK: "roomOK rm \<Longrightarrow> roomOK (tickRoom now mr rm)"
proof -
  assume "roomOK rm"
  then have "roomOK (rm\<lparr>clock := clock rm + DT\<rparr>)" by (simp add: roomOK_def)
  then have "roomOK (removeInactive now (rm\<lparr>clock := clock rm + DT\<rparr>))"
    by (rule removeInactive_OK)
  then have "roomOK (fst (botAI (removeInactive now (rm\<lparr>clock := clock rm + DT\<rparr>)) mr))"
    by (rule botAI_OK)
  then have "roomOK (beforeEngulf now mr rm)"
    unfolding beforeEngulf_def Let_def case_prod_beta
    by (intro virusPhase_OK refillPellets_OK eatPellets_OK movement_OK)
  then show ?thesis
    unfolding tickRoom_def by (intro respawn_OK engulfPhase_OK)
qed

lemma joinRoom_OK: "roomOK rm \<Longrightarrow> joinRoom rm nm ident now = Inr rm' \<Longrightarrow> roomOK rm'"
  using spawn_OK [of ident nm False "rng rm" now]
  by (auto simp: joinRoom_def roomOK_def agentsOK_mapSet split: if_splits prod.splits)

lemma split_OK:
  assumes "list_all blobOK (blobs a)"
  shows "list_all blobOK (blobs (split a))"
proof (cases "largest (blobs a) < length (blobs a) \<and> 14 * 2.2 \<le> rad (blobs a ! largest (blobs a))")
  case False
  then show ?thesis using assms by (auto simp: split_def Let_def)
next
  case True
  then have b: "blobOK (blobs a ! largest (blobs a))"
    using assms by (simp add: list_all_length)
  let ?b = "blobs a ! largest (blobs a)"
  have 1: "blobOK (?b\<lparr>mass := mass ?b * 0.5, rad := max 14 (rad ?b * 0.72), splitTimer := 0\<rparr>)"
    using b by (simp add: blobOK_def)
  have "\<forall>x \<in> set ((blobs a)[largest (blobs a) :=
      ?b\<lparr>mass := mass ?b * 0.5, rad := max 14 (rad ?b * 0.72), splitTimer := 0\<rparr>]). blobOK x"
    using set_update_OK [of "blobs a" blobOK, OF _ 1] assms by (simp add: list_all_iff)
  then show ?thesis
    using True b by (simp add: split_def Let_def list_all_iff blobOK_def)
qed

lemma mapGet_mem: "mapGet m k = Some a \<Longrightarrow> (k, a) \<in> set m"
  by (simp add: mapGet_def map_of_SomeD)

lemma inputRoom_OK:
  assumes "roomOK rm" "inputRoom rm ident ax ay bst spl now = Some rm'"
  shows "roomOK rm'"
proof -
  obtain a where a: "mapGet (agents rm) ident = Some a" "\<not> dead a"
    using assms(2) by (auto simp: inputRoom_def split: option.splits if_splits)
  have "list_all blobOK (blobs a)"
    using mapGet_mem [OF a(1)] assms(1) by (auto simp: roomOK_def agentsOK_iff list_all_iff)
  then have 1: "list_all blobOK (blobs (setAim (a\<lparr>lastSeen := now\<rparr>) ax ay bst))"
    by (simp add: setAim_blobs)
  then have 2: "list_all blobOK (blobs (split (setAim (a\<lparr>lastSeen := now\<rparr>) ax ay bst)))"
    by (rule split_OK)
  show ?thesis
    using assms a 1 2 by (auto simp: inputRoom_def roomOK_def Let_def agentsOK_mapSet)
qed

lemma evolves_OK: "evolves rm rm' \<Longrightarrow> roomOK rm \<Longrightarrow> roomOK rm'"
  by (induction rule: evolves.induct) (auto intro: tickRoom_OK joinRoom_OK inputRoom_OK)

lemma pop_fragments:
  "x \<in> set (fst (pop bi b bs mr)) \<Longrightarrow>
     x \<in> set bs \<or> (mass x = mass b / 8 \<and> rad x = max 14 (rad b / sqrt 8) \<and> splitTimer x = 0)"
  using set_removeAt [of bi bs]
  by (auto simp: pop_def Let_def case_prod_beta dest: makePieces_fields)

lemma split_decayed:
  "inputRoom decayedRoom ''p'' 1 0 False True 7 = Some afterSplit"
  by (simp add: inputRoom_def decayedRoom_def decayed_def afterSplit_def roomOf_def
      agentOf_def blobAt_def mapGet_def setAim_def normalize2D_def hypot_axis split_def
      largest_def Let_def)

text \<open>
  C1, as amended. From a room in which every blob has a radius of at least 14 and a positive
  mass and no pellet has a negative value, any sequence of ticks, joins and inputs (split
  requests among them) leads to a room in which every blob of every agent has a radius of at
  least 14 and a positive mass. Passive decay and boost cost leave a mass of at least 10 and
  a radius of at least 14. Growth by a non-negative gain, and so every engulfment of a blob
  of positive mass, decreases neither mass nor radius.
\<close>

theorem floors:
  "(roomOK rm \<longrightarrow> evolves rm rm' \<longrightarrow>
      (\<forall>(k, a) \<in> set (agents rm'). \<forall>b \<in> set (blobs a). 14 \<le> rad b \<and> 0 < mass b))
   \<and> (10 \<le> mass (knockDecay a tot b) \<and> 14 \<le> rad (knockDecay a tot b))
   \<and> (0 \<le> amount \<longrightarrow> mass b \<le> mass (grow b amount) \<and> rad b \<le> rad (grow b amount))
   \<and> (0 < mass p \<longrightarrow> mass b \<le> mass (eatBlob b p) \<and> rad b \<le> rad (eatBlob b p))"
proof (intro conjI impI)
  assume "roomOK rm" "evolves rm rm'"
  then have "roomOK rm'" using evolves_OK by blast
  then show "\<forall>(k, a) \<in> set (agents rm'). \<forall>b \<in> set (blobs a). 14 \<le> rad b \<and> 0 < mass b"
    by (auto simp: roomOK_def agentsOK_iff blobOK_def)
next
  show "10 \<le> mass (knockDecay a tot b)" "14 \<le> rad (knockDecay a tot b)"
    using knockDecay_floors by simp_all
next
  assume "0 \<le> amount"
  then show "mass b \<le> mass (grow b amount)" "rad b \<le> rad (grow b amount)"
    using grow_mono by simp_all
next
  assume "0 < mass p"
  then show "mass b \<le> mass (eatBlob b p)" "rad b \<le> rad (eatBlob b p)"
    using eatBlob_mono by simp_all
qed


theorem floors_witness:
  "roomOK decayedRoom \<and> evolves decayedRoom afterSplit
   \<and> list_all (\<lambda>(k, a). list_all (\<lambda>b. 14 \<le> rad b \<and> 0 < mass b) (blobs a))
         (agents afterSplit)
   \<and> (0::real) \<le> 2 \<and> mass (blobAt 0 0 55 36) \<le> mass (grow (blobAt 0 0 55 36) 2)
   \<and> 0 < mass (blobAt 0 0 20 20)
   \<and> mass (blobAt 0 0 55 36) \<le> mass (eatBlob (blobAt 0 0 55 36) (blobAt 0 0 20 20))
   \<and> 10 \<le> mass (knockDecay decayed 11 (blobAt 0 0 10 14))"
proof -
  have ok: "roomOK decayedRoom"
    by (simp add: roomOK_def agentsOK_def blobOK_def decayedRoom_def decayed_def roomOf_def
        agentOf_def blobAt_def)
  have ev: "evolves decayedRoom afterSplit"
    using evolves.inputted [OF evolves.start split_decayed] .
  have p: "0 < mass (blobAt 0 0 20 20)" by (simp add: blobAt_def)
  note F = floors [of decayedRoom afterSplit decayed 11 "blobAt 0 0 10 14" 2 "blobAt 0 0 20 20"]
  note G = floors [of decayedRoom afterSplit decayed 11 "blobAt 0 0 55 36" 2 "blobAt 0 0 20 20"]
  have "\<forall>(k, a) \<in> set (agents afterSplit). \<forall>b \<in> set (blobs a). 14 \<le> rad b \<and> 0 < mass b"
    using F [THEN conjunct1] ok ev by blast
  then have all: "list_all (\<lambda>(k, a). list_all (\<lambda>b. 14 \<le> rad b \<and> 0 < mass b) (blobs a))
         (agents afterSplit)"
    by (simp add: list_all_iff case_prod_beta)
  show ?thesis
    using ok ev p all
      F [THEN conjunct2, THEN conjunct1, THEN conjunct1]
      G [THEN conjunct2, THEN conjunct2, THEN conjunct1, rule_format, THEN conjunct1]
      G [THEN conjunct2, THEN conjunct2, THEN conjunct2, rule_format, OF p, THEN conjunct1]
    by simp
qed

text \<open>
  A human's blob of mass 11 and radius 32.48 (the spawn values after 4000 ticks of passive
  decay) is split on request: both halves have mass 5.5.
\<close>

theorem floors_counterexample:
  "map_option (\<lambda>rm. map mass (blobs (snd (agents rm ! 0))))
     (inputRoom decayedRoom ''p'' 1 0 False True 7) = Some [5.5, 5.5]"
  by (simp add: split_decayed) (simp add: afterSplit_def roomOf_def agentOf_def)

section \<open>Viruses\<close>

lemma sum_list_const: "\<forall>x \<in> set xs. f x = (c::real) \<Longrightarrow> sum_list (map f xs) = real (length xs) * c"
  by (induction xs) (simp_all add: distrib_right)

text \<open>
  One pop: the blob at index \<open>bi\<close> leaves the list and eight fragments are appended. Their
  masses sum to the blob's mass; for a radius of at least 62 each has the blob's radius
  divided by \<open>sqrt 8\<close>, so their squared radii sum to the blob's squared radius.
\<close>

lemma pop_conserves:
  assumes "62 \<le> rad b"
  shows "\<exists>fs. fst (pop bi b bs mr) = removeAt bi bs @ fs \<and> length fs = 8
     \<and> (\<forall>f \<in> set fs. mass f = mass b / 8 \<and> rad f = rad b / sqrt 8 \<and> splitTimer f = 0)
     \<and> sum_list (map mass fs) = mass b
     \<and> sum_list (map (\<lambda>f. (rad f)\<^sup>2) fs) = (rad b)\<^sup>2"
proof -
  define pr where "pr = max 14 (rad b / sqrt 8)"
  define fs where "fs = fst (makePieces 8 b (mass b / 8) pr mr)"
  have s3: "sqrt 8 \<le> 3" by (rule real_le_lsqrt) simp_all
  have s0: "0 < sqrt 8" by simp
  have "14 * sqrt 8 \<le> 14 * 3" using s3 by simp
  also have "\<dots> \<le> rad b" using assms by simp
  finally have "14 \<le> rad b / sqrt 8" using s0 by (simp add: pos_le_divide_eq)
  then have r: "pr = rad b / sqrt 8" unfolding pr_def by (rule max_absorb2)
  have f: "\<forall>f \<in> set fs. mass f = mass b / 8 \<and> rad f = rad b / sqrt 8 \<and> splitTimer f = 0"
  proof
    fix f assume "f \<in> set fs"
    then have "mass f = mass b / 8 \<and> rad f = pr \<and> splitTimer f = 0"
      unfolding fs_def by (rule makePieces_fields)
    then show "mass f = mass b / 8 \<and> rad f = rad b / sqrt 8 \<and> splitTimer f = 0"
      unfolding r .
  qed
  have l: "length fs = 8" unfolding fs_def by (rule makePieces_length)
  have "sum_list (map mass fs) = real (length fs) * (mass b / 8)"
    using f by (intro sum_list_const) blast
  then have m: "sum_list (map mass fs) = mass b" by (simp add: l)
  have "sum_list (map (\<lambda>f. (rad f)\<^sup>2) fs) = real (length fs) * (rad b / sqrt 8)\<^sup>2"
    using f by (intro sum_list_const) simp
  also have "\<dots> = (rad b)\<^sup>2" by (simp add: l power_divide)
  finally have q: "sum_list (map (\<lambda>f. (rad f)\<^sup>2) fs) = (rad b)\<^sup>2" .
  have p: "fst (pop bi b bs mr) = removeAt bi bs @ fs"
    unfolding pop_def Let_def case_prod_beta fst_conv fs_def pr_def by simp
  show ?thesis
    by (rule exI [of _ fs]) (intro conjI p f l m q)
qed

text \<open>The bot AI writes aims, boost flags and the generator, and nothing else.\<close>

lemma setAim_unaimed: "unaimed (setAim a ax ay bst) = unaimed a"
  by (simp add: setAim_def unaimed_def Let_def)

lemma botAgent_unaimed: "unaimed (fst (botAgent ags pels a g mr)) = unaimed a"
  by (simp add: botAgent_def setAim_unaimed Let_def
      split: list.splits prod.splits option.splits)

lemma botAIstep_frame:
  assumes "i < length (agents (fst st))"
  shows "map (\<lambda>(k, a). (k, unaimed a)) (agents (fst (botAIstep st i)))
           = map (\<lambda>(k, a). (k, unaimed a)) (agents (fst st))
       \<and> pellets (fst (botAIstep st i)) = pellets (fst st)
       \<and> viruses (fst (botAIstep st i)) = viruses (fst st)"
proof -
  obtain rm mr where st: "st = (rm, mr)" by (cases st)
  let ?r = "botAgent (mapValues (agents rm)) (pellets rm) (snd (agents rm ! i)) (rng rm) mr"
  let ?f = "\<lambda>(k, a). (k, unaimed a)"
  have "map ?f ((agents rm)[i := (fst (agents rm ! i), fst ?r)])
      = (map ?f (agents rm))[i := ?f (agents rm ! i)]"
    by (simp add: map_update botAgent_unaimed case_prod_beta)
  also have "\<dots> = map ?f (agents rm)"
    using assms by (simp add: st list_update_same_conv)
  finally show ?thesis
    by (simp add: st botAIstep_def case_prod_beta)
qed

lemma botAI_fold_frame:
  "\<forall>i \<in> set is. i < length (agents (fst st)) \<Longrightarrow>
     map (\<lambda>(k, a). (k, unaimed a)) (agents (fst (foldl botAIstep st is)))
           = map (\<lambda>(k, a). (k, unaimed a)) (agents (fst st))
       \<and> pellets (fst (foldl botAIstep st is)) = pellets (fst st)
       \<and> viruses (fst (foldl botAIstep st is)) = viruses (fst st)"
proof (induction "is" arbitrary: st)
  case Nil
  then show ?case by simp
next
  case (Cons i "is")
  note f = botAIstep_frame [of i st]
  have "length (map (\<lambda>(k, a). (k, unaimed a)) (agents (fst (botAIstep st i))))
      = length (map (\<lambda>(k, a). (k, unaimed a)) (agents (fst st)))"
    using f Cons.prems by simp
  then have len: "length (agents (fst (botAIstep st i))) = length (agents (fst st))"
    by simp
  show ?case
    using Cons.IH [of "botAIstep st i"] f Cons.prems len by simp
qed

lemma botAI_frame:
  "map (\<lambda>(k, a). (k, unaimed a)) (agents (fst (botAI rm mr)))
           = map (\<lambda>(k, a). (k, unaimed a)) (agents rm)
       \<and> pellets (fst (botAI rm mr)) = pellets rm
       \<and> viruses (fst (botAI rm mr)) = viruses rm"
  using botAI_fold_frame [of "[0..<length (agents rm)]" "(rm, mr)"]
  by (simp add: botAI_def)

text \<open>The viruses are not changed by a tick.\<close>

lemma viruses_tickRoom: "viruses (tickRoom now mr rm) = viruses rm"
  by (simp add: tickRoom_def respawn_def engulfPhase_def beforeEngulf_def virusPhase_def
      refillPellets_def eatPellets_def movement_def botAI_frame removeInactive_def
      Let_def case_prod_beta)


lemma virusLoop_pop_step:
  "hypot (posx b - virx v) (posy b - viry v) < rad b + virr v \<Longrightarrow> 62 \<le> rad b \<Longrightarrow>
     virusLoop bi (v # vs) b bs mr
       = virusLoop bi vs b (fst (pop bi b bs mr)) (snd (pop bi b bs mr))"
  by (simp add: Let_def case_prod_beta)

lemma virusBlobs_single: "virusBlobs (Suc 0) vs [b] mr = virusLoop 0 vs b [b] mr"
  by (simp add: case_prod_beta)

text \<open>
  C4 on a blob that overlaps two viruses. The blob of mass 800 and radius 100 is alone in its
  agent's list; both viruses are within reach. The first virus pops it into eight fragments
  of mass 100. The loop over the viruses goes on with the popped blob, and the second virus
  pops it again: \<^verbatim>\<open>splice(bi, 1)\<close> now removes the first fragment, and eight more
  fragments are appended. The agent ends with 15 blobs of total mass 1500.
\<close>

theorem virus_double_pop:
  "length (fst (virusBlobs 1 [virusA, virusB] [bigBlob] (\<lambda>_. 0))) = 15
   \<and> sum_list (map mass (fst (virusBlobs 1 [virusA, virusB] [bigBlob] (\<lambda>_. 0)))) = 1500
   \<and> mass bigBlob = 800"
proof -
  define mr :: random where "mr = (\<lambda>_. 0)"
  have big: "62 \<le> rad bigBlob" by (simp add: bigBlob_def blobAt_def)
  have m: "mass bigBlob = 800" by (simp add: bigBlob_def blobAt_def)
  have dA: "hypot (posx bigBlob - virx virusA) (posy bigBlob - viry virusA)
      < rad bigBlob + virr virusA"
    by (simp add: bigBlob_def virusA_def blobAt_def hypot_axis)
  have dB: "hypot (posx bigBlob - virx virusB) (posy bigBlob - viry virusB)
      < rad bigBlob + virr virusB"
    by (simp add: bigBlob_def virusB_def blobAt_def hypot_axis)
  define mr1 where "mr1 = snd (pop 0 bigBlob [bigBlob] mr)"
  obtain fs1 where 1: "fst (pop 0 bigBlob [bigBlob] mr) = removeAt 0 [bigBlob] @ fs1"
    "length fs1 = 8" "\<forall>f \<in> set fs1. mass f = mass bigBlob / 8"
    using pop_conserves [OF big, of 0 "[bigBlob]" mr] by blast
  have fs1: "fst (pop 0 bigBlob [bigBlob] mr) = fs1"
    unfolding 1(1) by (simp add: removeAt_def)
  obtain fs2 where 2: "fst (pop 0 bigBlob fs1 mr1) = removeAt 0 fs1 @ fs2"
    "length fs2 = 8" "\<forall>f \<in> set fs2. mass f = mass bigBlob / 8"
    using pop_conserves [OF big, of 0 fs1 mr1] by blast
  have "virusLoop 0 [virusA, virusB] bigBlob [bigBlob] mr
      = virusLoop 0 [virusB] bigBlob fs1 mr1"
    unfolding virusLoop_pop_step [OF dA big] fs1 mr1_def ..
  also have "\<dots> = virusLoop 0 [] bigBlob (removeAt 0 fs1 @ fs2) (snd (pop 0 bigBlob fs1 mr1))"
    unfolding virusLoop_pop_step [OF dB big] 2(1) ..
  also have "\<dots> = (removeAt 0 fs1 @ fs2, snd (pop 0 bigBlob fs1 mr1))"
    by (rule virusLoop.simps(1))
  finally have "virusLoop 0 [virusA, virusB] bigBlob [bigBlob] mr
      = (removeAt 0 fs1 @ fs2, snd (pop 0 bigBlob fs1 mr1))" .
  then have res: "fst (virusBlobs 1 [virusA, virusB] [bigBlob] mr) = removeAt 0 fs1 @ fs2"
    unfolding One_nat_def virusBlobs_single by (simp only: fst_conv)
  have len: "length (removeAt 0 fs1 @ fs2) = 15"
    using length_removeAt [of 0 fs1] 1(2) 2(2) by simp
  have "\<forall>f \<in> set (removeAt 0 fs1 @ fs2). mass f = 100"
    using 1(3) 2(3) set_removeAt [of 0 fs1] by (auto simp: m)
  from sum_list_const [OF this] have "sum_list (map mass (removeAt 0 fs1 @ fs2)) = 1500"
    unfolding len by simp
  then show ?thesis
    using len m unfolding res [unfolded mr_def] by simp
qed

section \<open>Engulfment of one blob by another\<close>

lemma canEat_exclusive: "0 \<le> r1 \<Longrightarrow> 0 \<le> r2 \<Longrightarrow> \<not> (canEat r1 r2 \<and> canEat r2 r1)"
  by (simp add: canEat_def)

lemma engulfBlobs_single:
  "engulfBlobs [x] [y] =
     (if engulfs x y then ([eatBlob x y], [], [Engulfment True 0 0 x y (eatBlob x y)])
      else if engulfs y x then ([], [eatBlob y x], [Engulfment False 0 0 y x (eatBlob y x)])
      else ([x], [y], []))"
  by (simp add: engulfBlobs_def removeAt_def Let_def)

text \<open>
  C9, as amended. The check of one blob against one blob of the other agent has one of three
  outcomes: the first eats the second, or else the second eats the first, or neither is
  changed; and for radii that are not negative the two conditions exclude each other.
\<close>

theorem engulf_one_direction:
  "engulfBlobs [x] [y] =
     (if engulfs x y then ([eatBlob x y], [], [Engulfment True 0 0 x y (eatBlob x y)])
      else if engulfs y x then ([], [eatBlob y x], [Engulfment False 0 0 y x (eatBlob y x)])
      else ([x], [y], []))
   \<and> (0 \<le> rad x \<longrightarrow> 0 \<le> rad y \<longrightarrow> \<not> (engulfs x y \<and> engulfs y x))"
  using canEat_exclusive [of "rad x" "rad y"]
  by (simp only: engulfBlobs_single) (auto simp: engulfs_def)

lemma engulfs_mid_tiny: "engulfs midBlob tinyBlob"
  by (simp add: engulfs_def canEat_def canEngulf_def midBlob_def tinyBlob_def blobAt_def
      hypot_axis)

theorem engulf_one_direction_witness:
  "0 \<le> rad midBlob \<and> 0 \<le> rad tinyBlob
   \<and> engulfs midBlob tinyBlob \<and> \<not> engulfs tinyBlob midBlob
   \<and> engulfBlobs [midBlob] [tinyBlob]
      = ([eatBlob midBlob tinyBlob], [],
         [Engulfment True 0 0 midBlob tinyBlob (eatBlob midBlob tinyBlob)])"
proof -
  have r: "0 \<le> rad midBlob" "0 \<le> rad tinyBlob"
    by (simp_all add: midBlob_def tinyBlob_def blobAt_def)
  note E = engulf_one_direction [of midBlob tinyBlob]
  show ?thesis
    using r engulfs_mid_tiny E [THEN conjunct1] E [THEN conjunct2, rule_format, OF r]
    by simp
qed

text \<open>
  One agent pair in which a blob eats and is eaten. \<open>A\<close> has one blob of radius 50; \<open>B\<close>
  has a blob of radius 200 at index 0 and one of radius 10 at index 1, all at the same
  place. The loop over \<open>B\<close>'s blobs runs from the last index down: \<open>A\<close>'s blob eats the small
  one (and is \<open>fedBlob\<close> then), and is then eaten by the large one.
\<close>

theorem engulf_counterexample:
  "snd (snd (engulfPair agentA agentB))
     = [Engulfment True 0 1 midBlob tinyBlob fedBlob, Engulfment False 0 0 hugeBlob fedBlob fatBlob]"
proof -
  have e1: "eatBlob midBlob tinyBlob = fedBlob"
    by (simp add: eatBlob_def grow_def clamp_def midBlob_def tinyBlob_def blobAt_def Let_def
        fedBlob_def)
  have e2: "eatBlob hugeBlob fedBlob = fatBlob"
    by (simp add: eatBlob_def grow_def clamp_def midBlob_def hugeBlob_def blobAt_def Let_def
        fedBlob_def fatBlob_def)
  have c2: "\<not> engulfs fedBlob hugeBlob"
    by (simp add: engulfs_def canEat_def midBlob_def hugeBlob_def blobAt_def fedBlob_def)
  have c3: "engulfs hugeBlob fedBlob"
    by (simp add: engulfs_def canEat_def canEngulf_def midBlob_def hugeBlob_def blobAt_def
        hypot_axis fedBlob_def)
  have "engulfBlobs [midBlob] [hugeBlob, tinyBlob]
     = ([], [fatBlob],
        [Engulfment True 0 1 midBlob tinyBlob fedBlob,
         Engulfment False 0 0 hugeBlob fedBlob fatBlob])"
    by (simp add: engulfBlobs_def numeral_2_eq_2 engulfs_mid_tiny e1 e2 c2 c3 removeAt_def
        Let_def)
  then show ?thesis
    by (simp add: engulfPair_def agentA_def agentB_def agentOf_def)
qed

section \<open>The loops of the engulfment phase\<close>

text \<open>
  What the blob loops of an agent pair do, for blobs that all satisfy a property \<open>P\<close> which
  eating preserves: the blobs left satisfy \<open>P\<close>; every recorded engulfment met the
  condition, its eater and eaten blob satisfied \<open>P\<close>, and its eater grew by \<open>eatBlob\<close>; and
  each engulfment removed exactly one blob.
\<close>


lemma engulfInner_events:
  assumes eat: "\<And>e p. P e \<Longrightarrow> P p \<Longrightarrow> P (eatBlob e p)"
    and "ai < length As" "\<forall>x \<in> set As. P x" "\<forall>x \<in> set Bs. P x"
  shows "(\<forall>x \<in> set (fst (engulfInner ai n As Bs)). P x)
       \<and> (\<forall>x \<in> set (fst (snd (engulfInner ai n As Bs))). P x)
       \<and> (\<forall>e \<in> set (snd (snd (engulfInner ai n As Bs))). eventOK P e)
       \<and> length (fst (engulfInner ai n As Bs)) + length (fst (snd (engulfInner ai n As Bs)))
           + length (snd (snd (engulfInner ai n As Bs))) = length As + length Bs"
  using assms(2-)
proof (induction n arbitrary: As Bs)
  case 0
  then show ?case by simp
next
  case (Suc bi)
  show ?case
  proof (cases "bi \<ge> length Bs")
    case True
    then show ?thesis using Suc.IH [OF Suc.prems] by simp
  next
    case False
    then have bi: "bi < length Bs" by simp
    have ab: "P (As ! ai)" using Suc.prems by simp
    have bb: "P (Bs ! bi)" using Suc.prems bi by simp
    have 1: "ai < length (As[ai := eatBlob (As ! ai) (Bs ! bi)])" using Suc.prems by simp
    have 2: "\<forall>x \<in> set (As[ai := eatBlob (As ! ai) (Bs ! bi)]). P x"
      using set_update_OK [of As P, OF Suc.prems(2) eat [OF ab bb]] .
    have 3: "\<forall>x \<in> set (removeAt bi Bs). P x"
      using set_removeAt_OK [of Bs P, OF Suc.prems(3)] .
    have 4: "\<forall>x \<in> set (removeAt ai As). P x"
      using set_removeAt_OK [of As P, OF Suc.prems(2)] .
    have 5: "\<forall>x \<in> set (Bs[bi := eatBlob (Bs ! bi) (As ! ai)]). P x"
      using set_update_OK [of Bs P, OF Suc.prems(3) eat [OF bb ab]] .
    consider (a) "engulfs (As ! ai) (Bs ! bi)"
      | (b) "\<not> engulfs (As ! ai) (Bs ! bi)" "engulfs (Bs ! bi) (As ! ai)"
      | (c) "\<not> engulfs (As ! ai) (Bs ! bi)" "\<not> engulfs (Bs ! bi) (As ! ai)"
      by blast
    then show ?thesis
    proof cases
      case a
      have "eventOK P (Engulfment True ai bi (As ! ai) (Bs ! bi) (eatBlob (As ! ai) (Bs ! bi)))"
        using a ab bb by (simp add: eventOK_def)
      then show ?thesis
        using Suc.IH [OF 1 2 3] bi a length_removeAt [OF bi]
        by (simp add: Let_def case_prod_beta)
    next
      case b
      have "eventOK P (Engulfment False ai bi (Bs ! bi) (As ! ai) (eatBlob (Bs ! bi) (As ! ai)))"
        using b ab bb by (simp add: eventOK_def)
      then show ?thesis
        using 4 5 bi b length_removeAt [OF Suc.prems(1)] by (simp add: Let_def)
    next
      case c
      then show ?thesis
        using Suc.IH [OF Suc.prems] bi by (simp add: Let_def)
    qed
  qed
qed

lemma engulfOuter_events:
  assumes eat: "\<And>e p. P e \<Longrightarrow> P p \<Longrightarrow> P (eatBlob e p)"
    and "\<forall>x \<in> set As. P x" "\<forall>x \<in> set Bs. P x"
  shows "(\<forall>x \<in> set (fst (engulfOuter n As Bs)). P x)
       \<and> (\<forall>x \<in> set (fst (snd (engulfOuter n As Bs))). P x)
       \<and> (\<forall>e \<in> set (snd (snd (engulfOuter n As Bs))). eventOK P e)
       \<and> length (fst (engulfOuter n As Bs)) + length (fst (snd (engulfOuter n As Bs)))
           + length (snd (snd (engulfOuter n As Bs))) = length As + length Bs"
  using assms(2-)
proof (induction n arbitrary: As Bs)
  case 0
  then show ?case by simp
next
  case (Suc ai)
  show ?case
  proof (cases "ai \<ge> length As")
    case True
    then show ?thesis using Suc.IH [OF Suc.prems] by simp
  next
    case False
    then have ai: "ai < length As" by simp
    note inner = engulfInner_events [of P, OF eat ai Suc.prems, of "length Bs"]
    note outer = Suc.IH [OF inner [THEN conjunct1] inner [THEN conjunct2, THEN conjunct1]]
    have unfold: "engulfOuter (Suc ai) As Bs =
        (fst (engulfOuter ai (fst (engulfInner ai (length Bs) As Bs))
               (fst (snd (engulfInner ai (length Bs) As Bs)))),
         fst (snd (engulfOuter ai (fst (engulfInner ai (length Bs) As Bs))
               (fst (snd (engulfInner ai (length Bs) As Bs))))),
         snd (snd (engulfInner ai (length Bs) As Bs))
           @ snd (snd (engulfOuter ai (fst (engulfInner ai (length Bs) As Bs))
               (fst (snd (engulfInner ai (length Bs) As Bs))))))"
      using ai by (simp add: case_prod_beta)
    show ?thesis
      unfolding unfold using inner outer by auto
  qed
qed


lemma engulfPair_events:
  assumes eat: "\<And>e p. P e \<Longrightarrow> P p \<Longrightarrow> P (eatBlob e p)"
    and "list_all P (blobs A)" "list_all P (blobs B)"
  shows "list_all P (blobs (fst (engulfPair A B)))
       \<and> list_all P (blobs (fst (snd (engulfPair A B))))
       \<and> list_all (eventOK P) (snd (snd (engulfPair A B)))
       \<and> length (blobs (fst (engulfPair A B))) + length (blobs (fst (snd (engulfPair A B))))
           + length (snd (snd (engulfPair A B))) = length (blobs A) + length (blobs B)
       \<and> (blobs (fst (engulfPair A B)) = [] \<longrightarrow> dead (fst (engulfPair A B)))
       \<and> (blobs (fst (snd (engulfPair A B))) = [] \<longrightarrow> dead (fst (snd (engulfPair A B))))"
proof -
  have pa: "\<forall>x \<in> set (blobs A). P x" and pb: "\<forall>x \<in> set (blobs B). P x"
    using assms(2,3) by (simp_all add: list_all_iff)
  note o = engulfOuter_events [of P, OF eat pa pb, of "length (blobs A)"]
  have d: "blobs (markDead a bs) = [] \<longrightarrow> dead (markDead a bs)" for a bs
    by (simp add: markDead_def)
  have "blobs (fst (engulfPair A B)) = [] \<longrightarrow> dead (fst (engulfPair A B))"
    "blobs (fst (snd (engulfPair A B))) = [] \<longrightarrow> dead (fst (snd (engulfPair A B)))"
    unfolding engulfPair_def case_prod_beta fst_conv snd_conv by (rule d)+
  then show ?thesis
    using o unfolding engulfPair_blobs engulfBlobs_def list_all_iff by blast
qed

lemma sum_list_update_add:
  "i < length xs \<Longrightarrow>
     sum_list (map f (xs[i := v])) + f (xs ! i) = sum_list (map f xs) + (f v :: nat)"
  by (induction xs arbitrary: i) (auto split: nat.splits)

lemma blobCount_update:
  "i < length arr \<Longrightarrow>
     blobCount (arr[i := a]) + length (blobs (arr ! i)) = blobCount arr + length (blobs a)"
  unfolding blobCount_def by (rule sum_list_update_add)

lemma engulfJ_inv:
  assumes eat: "\<And>e p. P e \<Longrightarrow> P p \<Longrightarrow> P (eatBlob e p)"
    and inv: "engulfInv P n st" and ij: "i < j" "j < length (fst st)"
  shows "engulfInv P n (engulfJ i st j) \<and> length (fst (engulfJ i st j)) = length (fst st)"
proof (cases "dead (fst st ! j)")
  case True
  then show ?thesis using inv by (simp add: engulfJ_def case_prod_beta)
next
  case False
  obtain arr tr where st: "st = (arr, tr)" by (cases st)
  let ?A = "fst (engulfPair (arr ! i) (arr ! j))"
  let ?B = "fst (snd (engulfPair (arr ! i) (arr ! j)))"
  let ?t = "snd (snd (engulfPair (arr ! i) (arr ! j)))"
  let ?Q = "\<lambda>a. list_all P (blobs a) \<and> (blobs a = [] \<longrightarrow> dead a)"
  have i: "i < length arr" and j: "j < length arr" using ij by (simp_all add: st)
  have all: "\<forall>a \<in> set arr. ?Q a" using inv by (simp add: engulfInv_def st list_all_iff)
  then have "list_all P (blobs (arr ! i))" "list_all P (blobs (arr ! j))"
    using i j by simp_all
  note p = engulfPair_events [of P, OF eat this]
  have qa: "?Q ?A" and qb: "?Q ?B" using p by simp_all
  have res: "engulfJ i st j = (arr[i := ?A, j := ?B], tr @ map (\<lambda>e. (i, j, e)) ?t)"
    using False by (simp add: st engulfJ_def case_prod_beta)
  have 1: "\<forall>a \<in> set (arr[i := ?A, j := ?B]). ?Q a"
    using set_update_OK [of "arr[i := ?A]" ?Q ?B j, OF set_update_OK [of arr ?Q ?A i, OF all qa] qb] .
  have 2: "list_all (\<lambda>ev. eventOK P (snd (snd ev))) (tr @ map (\<lambda>e. (i, j, e)) ?t)"
    using inv p by (auto simp: engulfInv_def st list_all_iff)
  have c1: "blobCount (arr[i := ?A]) + length (blobs (arr ! i)) = blobCount arr + length (blobs ?A)"
    using blobCount_update [OF i] .
  have "blobCount (arr[i := ?A, j := ?B]) + length (blobs ((arr[i := ?A]) ! j))
      = blobCount (arr[i := ?A]) + length (blobs ?B)"
    using blobCount_update [of j "arr[i := ?A]" ?B] j by simp
  then have c2: "blobCount (arr[i := ?A, j := ?B]) + length (blobs (arr ! j))
      = blobCount (arr[i := ?A]) + length (blobs ?B)"
    using ij by simp
  have c3: "length (blobs ?A) + length (blobs ?B) + length ?t
      = length (blobs (arr ! i)) + length (blobs (arr ! j))"
    using p by simp
  have "blobCount arr + length tr = n" using inv by (simp add: engulfInv_def st)
  then have 3: "blobCount (arr[i := ?A, j := ?B]) + length (tr @ map (\<lambda>e. (i, j, e)) ?t) = n"
    using c1 c2 c3 by simp
  show ?thesis
    unfolding res engulfInv_def using 1 2 3 by (simp add: list_all_iff st)
qed

lemma engulfJ_fold_inv:
  assumes eat: "\<And>e p. P e \<Longrightarrow> P p \<Longrightarrow> P (eatBlob e p)"
  shows "engulfInv P n st \<Longrightarrow> \<forall>j \<in> set js. i < j \<and> j < length (fst st) \<Longrightarrow>
     engulfInv P n (foldl (engulfJ i) st js)
     \<and> length (fst (foldl (engulfJ i) st js)) = length (fst st)"
proof (induction js arbitrary: st)
  case Nil
  then show ?case by simp
next
  case (Cons j js)
  have s: "engulfInv P n (engulfJ i st j)" "length (fst (engulfJ i st j)) = length (fst st)"
    using engulfJ_inv [of P n st i j, OF eat] Cons.prems by simp_all
  show ?case
    using Cons.IH [of "engulfJ i st j"] s Cons.prems by simp
qed

lemma engulfI_inv:
  assumes eat: "\<And>e p. P e \<Longrightarrow> P p \<Longrightarrow> P (eatBlob e p)"
    and "engulfInv P n st"
  shows "engulfInv P n (engulfI st i) \<and> length (fst (engulfI st i)) = length (fst st)"
proof -
  obtain arr tr where st: "st = (arr, tr)" by (cases st)
  show ?thesis
    using engulfJ_fold_inv [of P n st "[Suc i..<length arr]" i, OF eat] assms(2)
    by (simp add: st engulfI_def)
qed

lemma engulfI_fold_inv:
  assumes eat: "\<And>e p. P e \<Longrightarrow> P p \<Longrightarrow> P (eatBlob e p)"
  shows "engulfInv P n st \<Longrightarrow>
     engulfInv P n (foldl engulfI st is)
     \<and> length (fst (foldl engulfI st is)) = length (fst st)"
proof (induction "is" arbitrary: st)
  case Nil
  then show ?case by simp
next
  case (Cons i "is")
  have s: "engulfInv P n (engulfI st i)" "length (fst (engulfI st i)) = length (fst st)"
    using engulfI_inv [of P n st i, OF eat] Cons.prems by simp_all
  show ?case
    using Cons.IH [of "engulfI st i"] s by simp
qed

lemma engulfAll_inv:
  assumes eat: "\<And>e p. P e \<Longrightarrow> P p \<Longrightarrow> P (eatBlob e p)"
    and "list_all (\<lambda>a. list_all P (blobs a) \<and> (blobs a = [] \<longrightarrow> dead a)) arr"
  shows "engulfInv P (blobCount arr) (engulfAll arr)
     \<and> length (fst (engulfAll arr)) = length arr"
  using engulfI_fold_inv [of P "blobCount arr" "(arr, [])" "[0..<length arr]", OF eat] assms(2)
  by (simp add: engulfAll_def engulfInv_def)

subsection \<open>The phases before\<close>

lemma tidy_Cons: "tidy ((k, a) # m) \<longleftrightarrow> (dead a \<longleftrightarrow> blobs a = []) \<and> tidy m"
  by (simp add: tidy_def)

lemma heavy_Cons:
  "heavy c ((k, a) # m) \<longleftrightarrow> (\<not> dead a \<longrightarrow> list_all (\<lambda>b. c \<le> mass b) (blobs a)) \<and> heavy c m"
  by (simp add: heavy_def)

lemma tidy_unaimed:
  "tidy m \<longleftrightarrow> list_all (\<lambda>(k, a). dead a \<longleftrightarrow> blobs a = []) (map (\<lambda>(k, a). (k, unaimed a)) m)"
  by (simp add: tidy_def list_all_iff unaimed_def case_prod_beta)

lemma tidy_botAI: "tidy (agents rm) \<Longrightarrow> tidy (agents (fst (botAI rm mr)))"
  unfolding tidy_unaimed using botAI_frame [of rm mr] by simp

lemma tidy_removeInactive: "tidy (agents rm) \<Longrightarrow> tidy (agents (removeInactive now rm))"
  by (simp add: tidy_def removeInactive_def list_all_iff)

lemma tidy_movement: "tidy (agents rm) \<Longrightarrow> tidy (agents (movement rm))"
  by (auto simp: tidy_def movement_def moveAgent_def list_all_iff Let_def)

lemma heavy_movement: "heavy 10 (agents (movement rm))"
  by (auto simp: heavy_def movement_def moveAgent_def list_all_iff Let_def moveBlob_floors
      split: if_splits)

lemma eatPellet_mass: "0 \<le> pelv p \<Longrightarrow> mass (fst st) \<le> mass (fst (eatPellet p st))"
  using grow_mono [of "pelv p" "fst st"]
  by (cases st) (simp add: eatPellet_def Let_def)

lemma blobEats_mass:
  "\<forall>p \<in> set ps. 0 \<le> pelv p \<Longrightarrow> mass b \<le> mass (fst (blobEats b ps))"
  unfolding blobEats_def
proof (induction ps)
  case Nil
  then show ?case by simp
next
  case (Cons p ps)
  then have "mass b \<le> mass (fst (foldr eatPellet ps (b, [])))" by simp
  also have "\<dots> \<le> mass (fst (eatPellet p (foldr eatPellet ps (b, []))))"
    using Cons.prems by (intro eatPellet_mass) simp
  finally show ?case by simp
qed

lemma blobEats_subset: "set (snd (blobEats b ps)) \<subseteq> set ps"
  unfolding blobEats_def
  by (induction ps) (auto simp: eatPellet_def Let_def case_prod_beta)

lemma blobsEat_subset: "set (snd (blobsEat bs ps)) \<subseteq> set ps"
proof (induction bs arbitrary: ps)
  case Nil
  then show ?case by simp
next
  case (Cons b bs)
  show ?case
    using Cons.IH [of "snd (blobEats b ps)"] blobEats_subset [of b ps]
    by (auto simp: case_prod_beta)
qed

lemma blobsEat_heavy:
  "\<forall>p \<in> set ps. 0 \<le> pelv p \<Longrightarrow>
     length (fst (blobsEat bs ps)) = length bs
     \<and> (list_all (\<lambda>b. c \<le> mass b) bs \<longrightarrow> list_all (\<lambda>b. c \<le> mass b) (fst (blobsEat bs ps)))"
proof (induction bs arbitrary: ps)
  case Nil
  then show ?case by simp
next
  case (Cons b bs)
  have sub: "\<forall>p \<in> set (snd (blobEats b ps)). 0 \<le> pelv p"
    using blobEats_subset [of b ps] Cons.prems by auto
  show ?case
    using Cons.IH [OF sub] blobEats_mass [OF Cons.prems, of b]
    by (auto simp: case_prod_beta)
qed


lemma agentsEat_tidy_heavy:
  "\<forall>p \<in> set ps. 0 \<le> pelv p \<Longrightarrow>
     (tidy m \<longrightarrow> tidy (fst (agentsEat m ps)))
     \<and> (heavy c m \<longrightarrow> heavy c (fst (agentsEat m ps)))"
proof (induction m ps rule: agentsEat.induct)
  case (1 ps)
  then show ?case by simp
next
  case (2 k a m ps)
  show ?case
  proof (cases "dead a")
    case True
    with 2 show ?thesis
      by (simp add: tidy_Cons heavy_Cons case_prod_beta)
  next
    case False
    have sub: "\<forall>p \<in> set (snd (blobsEat (blobs a) ps)). 0 \<le> pelv p"
      using blobsEat_subset [of "blobs a" ps] "2.prems" by auto
    note h = blobsEat_heavy [OF "2.prems", of "blobs a" c]
    from h have "fst (blobsEat (blobs a) ps) = [] \<longleftrightarrow> blobs a = []"
      by (metis length_0_conv)
    then show ?thesis
      using "2.IH"(2) [OF False prod.collapse sub] False h
      by (simp add: tidy_Cons heavy_Cons case_prod_beta)
  qed
qed

lemma eatPellets_tidy_heavy:
  assumes "\<forall>p \<in> set (pellets rm). 0 \<le> pelv p"
  shows "(tidy (agents rm) \<longrightarrow> tidy (agents (eatPellets rm)))
       \<and> (heavy c (agents rm) \<longrightarrow> heavy c (agents (eatPellets rm)))"
  using agentsEat_tidy_heavy [OF assms, of "agents rm" c]
  by (simp add: eatPellets_def case_prod_beta)

lemma agents_refillPellets: "agents (refillPellets rm) = agents rm"
  by (simp add: refillPellets_def case_prod_beta)

lemma pop_heavy:
  assumes "c \<le> mass b" "\<forall>x \<in> set bs. c / 8 \<le> mass x"
  shows "\<forall>x \<in> set (fst (pop bi b bs mr)). c / 8 \<le> mass x"
proof
  fix x assume "x \<in> set (fst (pop bi b bs mr))"
  from pop_fragments [OF this] show "c / 8 \<le> mass x"
    using assms by auto
qed

lemma virusLoop_heavy:
  "c \<le> mass b \<Longrightarrow> 0 \<le> c \<Longrightarrow> \<forall>x \<in> set bs. c / 8 \<le> mass x \<Longrightarrow>
     \<forall>x \<in> set (fst (virusLoop bi vs b bs mr)). c / 8 \<le> mass x"
proof (induction vs arbitrary: b bs mr)
  case Nil
  then show ?case by simp
next
  case (Cons v vs)
  let ?b' = "b\<lparr>velx := velx b + fst (normalize2D (posx b - virx v) (posy b - viry v)) * 220,
               vely := vely b + snd (normalize2D (posx b - virx v) (posy b - viry v)) * 220\<rparr>"
  have b': "c \<le> mass ?b'" using Cons.prems(1) by simp
  have "c / 8 \<le> mass ?b'" using Cons.prems(1,2) by simp
  then have upd: "\<forall>x \<in> set (bs[bi := ?b']). c / 8 \<le> mass x"
    using set_update_OK [of bs "\<lambda>x. c / 8 \<le> mass x" ?b' bi] Cons.prems(3) by simp
  have popped: "\<forall>x \<in> set (fst (pop bi b bs mr)). c / 8 \<le> mass x"
    using pop_heavy [OF Cons.prems(1,3)] .
  consider (far) "\<not> hypot (posx b - virx v) (posy b - viry v) < rad b + virr v"
    | (pop) "hypot (posx b - virx v) (posy b - viry v) < rad b + virr v" "62 \<le> rad b"
    | (bounce) "hypot (posx b - virx v) (posy b - viry v) < rad b + virr v" "\<not> 62 \<le> rad b"
    by blast
  then show ?case
  proof cases
    case far
    then show ?thesis using Cons.IH [OF Cons.prems] by (simp add: Let_def)
  next
    case pop
    then show ?thesis
      using Cons.IH [OF Cons.prems(1,2) popped, of "snd (pop bi b bs mr)"]
      by (simp add: Let_def case_prod_beta)
  next
    case bounce
    then show ?thesis
      using Cons.IH [OF b' Cons.prems(2) upd] bounce
      by (simp add: Let_def)
  qed
qed


lemma pop_prefix: "i < bi \<Longrightarrow> bi < length bs \<Longrightarrow> fst (pop bi b bs mr) ! i = bs ! i"
  by (simp add: pop_def Let_def case_prod_beta removeAt_def nth_append)

lemma virusLoop_prefix:
  "i < bi \<Longrightarrow> bi < length bs \<Longrightarrow> fst (virusLoop bi vs b bs mr) ! i = bs ! i"
proof (induction vs arbitrary: b bs mr)
  case Nil
  then show ?case by simp
next
  case (Cons v vs)
  have 1: "bi < length (fst (pop bi b bs mr))"
    using pop_length [OF Cons.prems(2), of b mr] Cons.prems by simp
  show ?case
    using Cons.IH [OF Cons.prems] Cons.IH [OF Cons.prems(1) 1, of b "snd (pop bi b bs mr)"]
      Cons.IH [of "bs[bi := b']" for b'] Cons.prems pop_prefix [OF Cons.prems, of b mr]
    by (simp add: Let_def case_prod_beta)
qed

lemma virusBlobs_length:
  "n \<le> length bs \<Longrightarrow> length bs \<le> length (fst (virusBlobs n vs bs mr))"
proof (induction n arbitrary: bs mr)
  case 0
  then show ?case by simp
next
  case (Suc bi)
  let ?bs' = "fst (virusLoop bi vs (bs ! bi) bs mr)"
  have lt: "bi < length bs" using Suc.prems by simp
  have len: "length bs \<le> length ?bs'" using virusLoop_length [OF lt] .
  then have 1: "bi \<le> length ?bs'" using lt by simp
  have "length ?bs' \<le> length (fst (virusBlobs bi vs ?bs' (snd (virusLoop bi vs (bs ! bi) bs mr))))"
    using Suc.IH [OF 1] .
  then show ?case using len by (simp add: case_prod_beta)
qed

lemma virusBlobs_heavy:
  "n \<le> length bs \<Longrightarrow> 0 \<le> c \<Longrightarrow> \<forall>i<n. c \<le> mass (bs ! i) \<Longrightarrow> \<forall>x \<in> set bs. c / 8 \<le> mass x \<Longrightarrow>
     \<forall>x \<in> set (fst (virusBlobs n vs bs mr)). c / 8 \<le> mass x"
proof (induction n arbitrary: bs mr)
  case 0
  then show ?case by simp
next
  case (Suc bi)
  let ?bs' = "fst (virusLoop bi vs (bs ! bi) bs mr)"
  have lt: "bi < length bs" using Suc.prems by simp
  have b: "c \<le> mass (bs ! bi)" using Suc.prems by simp
  have len: "length bs \<le> length ?bs'" using virusLoop_length [OF lt] .
  then have 1: "bi \<le> length ?bs'" using lt by simp
  have 2: "\<forall>i<bi. c \<le> mass (?bs' ! i)"
    using virusLoop_prefix [OF _ lt, of _ vs "bs ! bi" mr] Suc.prems(3) by simp
  have 3: "\<forall>x \<in> set ?bs'. c / 8 \<le> mass x"
    using virusLoop_heavy [OF b Suc.prems(2,4)] .
  have "\<forall>x \<in> set (fst (virusBlobs bi vs ?bs' (snd (virusLoop bi vs (bs ! bi) bs mr)))).
      c / 8 \<le> mass x"
    using Suc.IH [OF 1 Suc.prems(2) 2 3] .
  then show ?case by (simp add: case_prod_beta)
qed

lemma virusAgents_tidy_heavy:
  "0 \<le> c \<Longrightarrow>
     (tidy m \<longrightarrow> tidy (fst (virusAgents m vs mr)))
     \<and> (heavy c m \<longrightarrow> heavy (c / 8) (fst (virusAgents m vs mr)))"
proof (induction m arbitrary: mr)
  case Nil
  then show ?case by (simp add: tidy_def heavy_def)
next
  case (Cons ka m)
  obtain k a where ka: "ka = (k, a)" by (cases ka)
  show ?case
  proof (cases "dead a")
    case True
    then show ?thesis
      using Cons.IH [OF Cons.prems] by (simp add: ka tidy_Cons heavy_Cons case_prod_beta)
  next
    case False
    let ?bs = "fst (virusBlobs (length (blobs a)) vs (blobs a) mr)"
    have "length (blobs a) \<le> length ?bs" by (rule virusBlobs_length) simp
    then have ne: "blobs a \<noteq> [] \<longrightarrow> ?bs \<noteq> []" by auto
    have hv: "list_all (\<lambda>b. c \<le> mass b) (blobs a) \<longrightarrow> list_all (\<lambda>b. c / 8 \<le> mass b) ?bs"
    proof
      assume h: "list_all (\<lambda>b. c \<le> mass b) (blobs a)"
      then have 1: "\<forall>i<length (blobs a). c \<le> mass (blobs a ! i)" by (simp add: list_all_length)
      have "c / 8 \<le> c" using Cons.prems by simp
      then have 2: "\<forall>x \<in> set (blobs a). c / 8 \<le> mass x"
        using h by (auto simp: list_all_iff)
      show "list_all (\<lambda>b. c / 8 \<le> mass b) ?bs"
        using virusBlobs_heavy [OF _ Cons.prems 1 2, of vs mr]
        by (simp add: list_all_iff)
    qed
    show ?thesis
      using Cons.IH [OF Cons.prems] False ne hv
      by (simp add: ka tidy_Cons heavy_Cons case_prod_beta)
  qed
qed

lemma virusPhase_tidy_heavy:
  "0 \<le> c \<Longrightarrow>
     (tidy (agents rm) \<longrightarrow> tidy (agents (fst (virusPhase rm mr))))
     \<and> (heavy c (agents rm) \<longrightarrow> heavy (c / 8) (agents (fst (virusPhase rm mr))))"
  using virusAgents_tidy_heavy [of c "agents rm" "viruses rm" mr]
  by (simp add: virusPhase_def case_prod_beta)


lemma pellets_movement: "pellets (movement rm) = pellets rm"
  by (simp add: movement_def)

lemma pellets_removeInactive: "pellets (removeInactive now rm) = pellets rm"
  by (simp add: removeInactive_def)

lemma beforeEngulf_ready:
  assumes "tidy (agents rm)" "\<forall>p \<in> set (pellets rm). 0 \<le> pelv p"
  shows "tidy (agents (beforeEngulf now mr rm))
       \<and> heavy (10 / 8) (agents (beforeEngulf now mr rm))"
proof -
  define rm1 where "rm1 = removeInactive now (rm\<lparr>clock := clock rm + DT\<rparr>)"
  define rm2 where "rm2 = fst (botAI rm1 mr)"
  define rm3 where "rm3 = movement rm2"
  define rm4 where "rm4 = eatPellets rm3"
  define rm5 where "rm5 = refillPellets rm4"
  have b: "beforeEngulf now mr rm = fst (virusPhase rm5 (snd (botAI rm1 mr)))"
    by (simp add: beforeEngulf_def Let_def case_prod_beta rm1_def rm2_def rm3_def rm4_def
        rm5_def)
  have t1: "tidy (agents rm1)"
    unfolding rm1_def using assms(1) by (intro tidy_removeInactive) simp
  have p1: "pellets rm1 = pellets rm" by (simp add: rm1_def pellets_removeInactive)
  have t2: "tidy (agents rm2)" unfolding rm2_def using t1 by (rule tidy_botAI)
  have p2: "pellets rm2 = pellets rm" using botAI_frame [of rm1 mr] p1 by (simp add: rm2_def)
  have t3: "tidy (agents rm3)" unfolding rm3_def using t2 by (rule tidy_movement)
  have h3: "heavy 10 (agents rm3)" unfolding rm3_def by (rule heavy_movement)
  have p3: "\<forall>p \<in> set (pellets rm3). 0 \<le> pelv p"
    using assms(2) by (simp add: rm3_def pellets_movement p2)
  have t4: "tidy (agents rm4)" and h4: "heavy 10 (agents rm4)"
    using eatPellets_tidy_heavy [OF p3, of 10] t3 h3 by (simp_all add: rm4_def)
  have t5: "tidy (agents rm5)" and h5: "heavy 10 (agents rm5)"
    using t4 h4 by (simp_all add: rm5_def agents_refillPellets)
  show ?thesis
    unfolding b using virusPhase_tidy_heavy [of 10 rm5 "snd (botAI rm1 mr)"] t5 h5 by simp
qed

lemma eatBlob_heavy: "1 \<le> mass e \<Longrightarrow> 1 \<le> mass p \<Longrightarrow> 1 \<le> mass (eatBlob e p)"
  using eatBlob_mono [of p e] by simp

lemma eatBlob_ratio:
  "1 \<le> mass e \<Longrightarrow> eatBlob e p = grow e (mass p * clamp (mass p / mass e) 0.12 0.50)"
  by (simp add: eatBlob_def Let_def max_def)

lemma viruses_refillPellets: "viruses (refillPellets rm) = viruses rm"
  by (simp add: refillPellets_def case_prod_beta)


section \<open>Bot AI\<close>



















section \<open>Reproducibility\<close>

lemma botAI_hunt:
  "botAI (removeInactive 1 (huntRoom\<lparr>clock := clock huntRoom + DT\<rparr>)) mr
     = ((huntRoom\<lparr>clock := clock huntRoom + DT\<rparr>)
          \<lparr>agents := [(''bot_0_ABCDEF'',
               (agentOf ''bot_0_ABCDEF'' True 1 0 [blobAt 1000 1000 100 40])\<lparr>boost := mr 0 < 0.20\<rparr>),
              (''p'', agentOf ''p'' False 0 0 [blobAt 1200 1000 30 20])]\<rparr>,
        \<lambda>n. mr (Suc n))"
proof -
  define rm1 where "rm1 = removeInactive 1 (huntRoom\<lparr>clock := clock huntRoom + DT\<rparr>)"
  have r1: "rm1 = huntRoom\<lparr>clock := clock huntRoom + DT\<rparr>"
    by (simp add: rm1_def removeInactive_def huntRoom_def roomOf_def agentOf_def
        inactive_def PLAYER_TTL_def)
  have s0: "botAgent (mapValues (agents huntRoom)) [] (agentOf ''bot_0_ABCDEF'' True 0 0 [blobAt 1000 1000 100 40]) g mr
      = ((agentOf ''bot_0_ABCDEF'' True 1 0 [blobAt 1000 1000 100 40])\<lparr>boost := mr 0 < 0.20\<rparr>, g,
         \<lambda>n. mr (Suc n))" for g
    by (simp add: botAgent_def scanAgents_def considerAgent_def considerBlob_def huntRoom_def
        roomOf_def mapValues_def agentOf_def blobAt_def hypot_axis setAim_def normalize2D_def
        Let_def Math_random_def)
  have s1: "botAgent ags pels (agentOf ''p'' False 0 0 bs) g mr' = (agentOf ''p'' False 0 0 bs, g, mr')"
    for ags pels bs g mr'
    by (simp add: botAgent_def agentOf_def)
  have "foldl botAIstep (rm1, mr) [0, 1] = (rm1\<lparr>agents := [(''bot_0_ABCDEF'',
               (agentOf ''bot_0_ABCDEF'' True 1 0 [blobAt 1000 1000 100 40])\<lparr>boost := mr 0 < 0.20\<rparr>),
              (''p'', agentOf ''p'' False 0 0 [blobAt 1200 1000 30 20])]\<rparr>, \<lambda>n. mr (Suc n))"
    unfolding r1
    by (simp add: botAIstep_def) (simp add: huntRoom_def roomOf_def s0 [unfolded huntRoom_def roomOf_def, simplified] s1)
  moreover have "[0..<length (agents rm1)] = [0, 1]"
    by (simp add: r1 huntRoom_def roomOf_def upt_rec)
  ultimately show ?thesis
    unfolding botAI_def rm1_def [symmetric] by (simp add: r1)
qed


lemma move_hunter:
  "moveAgent ((agentOf ''bot_0_ABCDEF'' True 1 0 [blobAt 1000 1000 100 40])\<lparr>boost := bst\<rparr>)
     = hunterAfter bst"
  by (simp add: moveAgent_def agentOf_def blobAt_def hunterAfter_def moveBlob_def
      moveClamp_def knockDecay_def clamp_def WORLD_def DT_def TICK_RATE_def Let_def
      agentMass_def baseSpeed_def)

lemma move_hunted:
  "moveAgent (agentOf ''p'' False 0 0 [blobAt 1200 1000 30 20]) = huntedAfter"
  by (simp add: moveAgent_def agentOf_def blobAt_def huntedAfter_def moveBlob_def
      moveClamp_def knockDecay_def clamp_def WORLD_def DT_def TICK_RATE_def Let_def)

lemma agents_hunt:
  "agents (beforeEngulf 1 mr huntRoom)
     = [(''bot_0_ABCDEF'', hunterAfter (mr 0 < 0.20)), (''p'', huntedAfter)]"
proof -
  have d: "\<not> dead (hunterAfter bst)" "\<not> dead huntedAfter" for bst
    by (simp_all add: hunterAfter_def huntedAfter_def agentOf_def)
  have e: "blobsEat bs [] = (bs, [])" for bs
    by (induction bs) (simp_all add: blobEats_def)
  have v: "virusBlobs n [] bs mr' = (bs, mr')" for n bs mr'
    by (induction n arbitrary: bs mr') simp_all
  show ?thesis
    unfolding beforeEngulf_def Let_def botAI_hunt prod.case
    by (simp add: virusPhase_def viruses_refillPellets agents_refillPellets eatPellets_def
        movement_def huntRoom_def roomOf_def move_hunter move_hunted d e v)
qed

lemma no_engulf_hunt:
  "\<not> engulfs b1 b2" "\<not> engulfs b2 b1"
  if "blobs (hunterAfter bst) = [b1]" "blobs huntedAfter = [b2]"
  using that
  by (cases bst; auto simp: hunterAfter_def huntedAfter_def agentOf_def engulfs_def canEat_def
      canEngulf_def hypot_axis)+

lemma engulfAll_hunt:
  "engulfAll [hunterAfter bst, huntedAfter] = ([hunterAfter bst, huntedAfter], [])"
proof -
  obtain b1 where b1: "blobs (hunterAfter bst) = [b1]"
    by (simp add: hunterAfter_def agentOf_def)
  obtain b2 where b2: "blobs huntedAfter = [b2]"
    by (simp add: huntedAfter_def agentOf_def)
  note ne = no_engulf_hunt [OF b1 b2]
  have d: "\<not> dead (hunterAfter bst)" "\<not> dead huntedAfter"
    by (simp_all add: hunterAfter_def huntedAfter_def agentOf_def)
  have md1: "markDead (hunterAfter bst) [b1] = hunterAfter bst"
    using b1 by (simp add: markDead_def)
  have md2: "markDead huntedAfter [b2] = huntedAfter"
    using b2 by (simp add: markDead_def)
  show ?thesis
    by (simp add: engulfAll_def engulfI_def engulfJ_def engulfPair_def engulfBlobs_single
        d b1 b2 ne md1 md2 upt_rec numeral_2_eq_2)
qed

lemma tick_hunt:
  "agents (tickRoom 1 mr huntRoom)
     = [(''bot_0_ABCDEF'', hunterAfter (mr 0 < 0.20)), (''p'', huntedAfter)]"
proof -
  define bst where "bst = (mr 0 < 0.20)"
  have d: "\<not> dead (hunterAfter bst)" "\<not> dead huntedAfter"
    by (simp_all add: hunterAfter_def huntedAfter_def agentOf_def)
  have ag: "agents (beforeEngulf 1 mr huntRoom)
      = [(''bot_0_ABCDEF'', hunterAfter bst), (''p'', huntedAfter)]"
    unfolding bst_def by (rule agents_hunt)
  have ph: "agents (engulfPhase (beforeEngulf 1 mr huntRoom))
      = [(''bot_0_ABCDEF'', hunterAfter bst), (''p'', huntedAfter)]"
    by (simp add: engulfPhase_def ag mapValues_def engulfAll_hunt)
  have "agents (tickRoom 1 mr huntRoom)
      = [(''bot_0_ABCDEF'', hunterAfter bst), (''p'', huntedAfter)]"
    unfolding tickRoom_def
    by (simp add: respawn_def respawnStep_def ph mapValues_def d case_prod_beta)
  then show ?thesis unfolding bst_def .
qed

text \<open>
  C6 on two runs of one tick. The room, with its generator, and the wall clock are the same
  in both; \<^verbatim>\<open>Math.random()\<close> returns 0.1 in the first and 0.9 in the second. The bot
  chases the human with boost in the first run and without in the second, and ends the tick
  at different places.
\<close>

theorem random_not_seeded:
  "map (\<lambda>(k, a). boost a) (agents (tickRoom 1 (\<lambda>_. 0.1) huntRoom)) = [True, False]
   \<and> map (\<lambda>(k, a). boost a) (agents (tickRoom 1 (\<lambda>_. 0.9) huntRoom)) = [False, False]
   \<and> tickRoom 1 (\<lambda>_. 0.1) huntRoom \<noteq> tickRoom 1 (\<lambda>_. 0.9) huntRoom"
proof -
  have 1: "map (\<lambda>(k, a). boost a) (agents (tickRoom 1 (\<lambda>_. 0.1) huntRoom)) = [True, False]"
    by (simp add: tick_hunt hunterAfter_def huntedAfter_def agentOf_def)
  have 2: "map (\<lambda>(k, a). boost a) (agents (tickRoom 1 (\<lambda>_. 0.9) huntRoom)) = [False, False]"
    by (simp add: tick_hunt hunterAfter_def huntedAfter_def agentOf_def)
  from 1 2 have "tickRoom 1 (\<lambda>_. 0.1) huntRoom \<noteq> tickRoom 1 (\<lambda>_. 0.9) huntRoom"
    by (metis list.inject)
  with 1 2 show ?thesis by (intro conjI)
qed

section \<open>Dead agents and empty blob lists\<close>

text \<open>
  That an agent is dead exactly when it has no blob, which the theorem on the engulfment
  phase assumes of the room, holds along every history of a room it holds in at the start.
\<close>

lemma engulfOuter_noA: "engulfOuter n [] Bs = ([], Bs, [])"
  by (induction n) simp_all

lemma engulfOuter_noB: "engulfOuter n As [] = (As, [], [])"
  by (induction n arbitrary: As) simp_all

lemma engulfPair_dead:
  assumes "dead A \<longrightarrow> blobs A = []" "dead B \<longrightarrow> blobs B = []"
  shows "(dead (fst (engulfPair A B)) \<longrightarrow> blobs (fst (engulfPair A B)) = [])
       \<and> (dead (fst (snd (engulfPair A B))) \<longrightarrow> blobs (fst (snd (engulfPair A B))) = [])"
proof -
  have a: "fst (engulfBlobs (blobs A) (blobs B)) = []" if "dead A"
    using that assms(1) by (simp add: engulfBlobs_def engulfOuter_noA)
  have b: "fst (snd (engulfBlobs (blobs A) (blobs B))) = []" if "dead B"
    using that assms(2) by (simp add: engulfBlobs_def engulfOuter_noB)
  show ?thesis
    using a b by (auto simp: engulfPair_def markDead_def case_prod_beta)
qed

lemma engulfJ_dead:
  assumes "\<forall>a \<in> set (fst st). dead a \<longrightarrow> blobs a = []" "i < length (fst st)" "j < length (fst st)"
  shows "\<forall>a \<in> set (fst (engulfJ i st j)). dead a \<longrightarrow> blobs a = []"
proof -
  obtain arr tr where st: "st = (arr, tr)" by (cases st)
  let ?Q = "\<lambda>a. dead a \<longrightarrow> blobs a = []"
  have all: "\<forall>a \<in> set arr. ?Q a" using assms(1) by (simp add: st)
  then have "?Q (arr ! i)" "?Q (arr ! j)" using assms(2,3) by (simp_all add: st)
  note p = engulfPair_dead [OF this]
  have "\<forall>a \<in> set (arr[i := fst (engulfPair (arr ! i) (arr ! j)),
                      j := fst (snd (engulfPair (arr ! i) (arr ! j)))]). ?Q a"
    using set_update_OK [of "arr[i := fst (engulfPair (arr ! i) (arr ! j))]" ?Q
        "fst (snd (engulfPair (arr ! i) (arr ! j)))" j,
        OF set_update_OK [of arr ?Q "fst (engulfPair (arr ! i) (arr ! j))" i,
          OF all p [THEN conjunct1]] p [THEN conjunct2]] .
  then show ?thesis
    using all by (simp add: st engulfJ_def case_prod_beta)
qed

lemma engulfJ_length: "length (fst (engulfJ i st j)) = length (fst st)"
  by (cases st) (simp add: engulfJ_def case_prod_beta)

lemma engulfJ_fold_dead:
  "\<forall>a \<in> set (fst st). dead a \<longrightarrow> blobs a = [] \<Longrightarrow> i < length (fst st)
     \<Longrightarrow> \<forall>j \<in> set js. j < length (fst st)
     \<Longrightarrow> (\<forall>a \<in> set (fst (foldl (engulfJ i) st js)). dead a \<longrightarrow> blobs a = [])
         \<and> length (fst (foldl (engulfJ i) st js)) = length (fst st)"
proof (induction js arbitrary: st)
  case Nil
  then show ?case by simp
next
  case (Cons j js)
  have "j < length (fst st)" using Cons.prems(3) by simp
  then have 1: "\<forall>a \<in> set (fst (engulfJ i st j)). dead a \<longrightarrow> blobs a = []"
    by (rule engulfJ_dead [OF Cons.prems(1,2)])
  show ?case
    using Cons.IH [of "engulfJ i st j", OF 1] Cons.prems by (simp add: engulfJ_length)
qed

lemma engulfI_dead:
  assumes "\<forall>a \<in> set (fst st). dead a \<longrightarrow> blobs a = []" "i < length (fst st)"
  shows "(\<forall>a \<in> set (fst (engulfI st i)). dead a \<longrightarrow> blobs a = [])
       \<and> length (fst (engulfI st i)) = length (fst st)"
proof -
  obtain arr tr where st: "st = (arr, tr)" by (cases st)
  show ?thesis
    using engulfJ_fold_dead [of st i "[Suc i..<length arr]"] assms
    by (simp add: st engulfI_def)
qed

lemma engulfI_fold_dead:
  "\<forall>a \<in> set (fst st). dead a \<longrightarrow> blobs a = [] \<Longrightarrow> \<forall>i \<in> set is. i < length (fst st)
     \<Longrightarrow> (\<forall>a \<in> set (fst (foldl engulfI st is)). dead a \<longrightarrow> blobs a = [])
         \<and> length (fst (foldl engulfI st is)) = length (fst st)"
proof (induction "is" arbitrary: st)
  case Nil
  then show ?case by simp
next
  case (Cons i "is")
  note s = engulfI_dead [of st i]
  show ?case
    using Cons.IH [of "engulfI st i"] s Cons.prems by simp
qed

lemma engulfPhase_tidy:
  assumes "tidy (agents rm)"
  shows "tidy (agents (engulfPhase rm))"
proof -
  define arr where "arr = mapValues (agents rm)"
  have t: "\<forall>a \<in> set arr. dead a \<longleftrightarrow> blobs a = []"
    using assms by (auto simp: arr_def mapValues_def tidy_def list_all_iff)
  then have d: "\<forall>a \<in> set (fst (arr, [])). dead a \<longrightarrow> blobs a = []" by simp
  have 1: "\<forall>a \<in> set (fst (engulfAll arr)). dead a \<longrightarrow> blobs a = []"
    using engulfI_fold_dead [OF d, of "[0..<length arr]"] by (simp add: engulfAll_def)
  have "list_all (\<lambda>a. list_all (\<lambda>_. True) (blobs a) \<and> (blobs a = [] \<longrightarrow> dead a)) arr"
    using t by (simp add: list_all_iff)
  from engulfAll_inv [of "\<lambda>_. True", OF _ this]
  have 2: "\<forall>a \<in> set (fst (engulfAll arr)). blobs a = [] \<longrightarrow> dead a"
    and len: "length (fst (engulfAll arr)) = length arr"
    by (simp_all add: engulfInv_def list_all_iff)
  have "\<forall>a \<in> set (fst (engulfAll arr)). dead a \<longleftrightarrow> blobs a = []"
    using 1 2 by blast
  then show ?thesis
    by (auto simp: tidy_def engulfPhase_def list_all_iff arr_def dest: set_zip_rightD)
qed

lemma tidy_mapSet: "tidy m \<Longrightarrow> (dead a \<longleftrightarrow> blobs a = []) \<Longrightarrow> tidy (mapSet k a m)"
  by (induction m) (auto simp: tidy_def)

lemma spawn_tidy:
  "dead (fst (spawnAgent ident nm bt g now)) \<longleftrightarrow> blobs (fst (spawnAgent ident nm bt g now)) = []"
  using spawn_shape [of ident nm bt g now] by auto

lemma respawnStep_tidy: "tidy (fst st) \<Longrightarrow> tidy (fst (respawnStep now st a))"
  using spawn_tidy [of "aid a" "name a" True "snd st" now]
  by (cases st) (auto simp: respawnStep_def tidy_mapSet split: prod.splits)

lemma respawn_fold_tidy: "tidy (fst st) \<Longrightarrow> tidy (fst (foldl (respawnStep now) st as))"
  by (induction as arbitrary: st) (simp_all add: respawnStep_tidy)

lemma respawn_tidy: "tidy (agents rm) \<Longrightarrow> tidy (agents (respawn now rm))"
  using respawn_fold_tidy [of "(agents rm, rng rm)" now "mapValues (agents rm)"]
  by (simp add: respawn_def case_prod_beta)

lemma tickRoom_tidy:
  assumes "roomOK rm" "tidy (agents rm)"
  shows "tidy (agents (tickRoom now mr rm))"
proof -
  have "\<forall>p \<in> set (pellets rm). 0 \<le> pelv p"
    using assms(1) by (simp add: roomOK_def list_all_iff)
  from beforeEngulf_ready [OF assms(2) this, of now mr]
  have "tidy (agents (beforeEngulf now mr rm))" by simp
  then show ?thesis
    unfolding tickRoom_def by (intro respawn_tidy engulfPhase_tidy)
qed

lemma joinRoom_tidy:
  "tidy (agents rm) \<Longrightarrow> joinRoom rm nm ident now = Inr rm' \<Longrightarrow> tidy (agents rm')"
  using spawn_tidy [of ident nm False "rng rm" now]
  by (auto simp: joinRoom_def tidy_mapSet split: if_splits prod.splits)

lemma split_nonempty: "blobs a \<noteq> [] \<Longrightarrow> blobs (split a) \<noteq> []"
  by (simp add: split_def Let_def)

lemma split_dead: "dead (split a) = dead a"
  by (simp add: split_def Let_def)

lemma inputRoom_tidy:
  assumes "tidy (agents rm)" "inputRoom rm ident ax ay bst spl now = Some rm'"
  shows "tidy (agents rm')"
proof -
  obtain a where a: "mapGet (agents rm) ident = Some a" "\<not> dead a"
    using assms(2) by (auto simp: inputRoom_def split: option.splits if_splits)
  have ne: "blobs a \<noteq> []"
    using mapGet_mem [OF a(1)] assms(1) a(2) by (auto simp: tidy_def list_all_iff)
  let ?a1 = "setAim (a\<lparr>lastSeen := now\<rparr>) ax ay bst"
  have 1: "\<not> dead ?a1" "blobs ?a1 \<noteq> []"
    using a(2) ne by (simp_all add: setAim_def Let_def)
  have 2: "\<not> dead (split ?a1)" "blobs (split ?a1) \<noteq> []"
    using 1 by (simp_all add: split_dead split_nonempty)
  show ?thesis
    using assms a 1 2 by (auto simp: inputRoom_def Let_def tidy_mapSet)
qed

lemma evolves_invariant:
  "evolves rm rm' \<Longrightarrow> roomOK rm \<and> tidy (agents rm) \<Longrightarrow> roomOK rm' \<and> tidy (agents rm')"
proof (induction rule: evolves.induct)
  case (start rm)
  then show ?case by simp
next
  case (tick rm rm1 now mr)
  then show ?case using tickRoom_OK tickRoom_tidy by blast
next
  case (joined rm rm1 nm ident now rm2)
  then show ?case using joinRoom_OK joinRoom_tidy by blast
next
  case (inputted rm rm1 ident ax ay bst spl now rm2)
  then show ?case using inputRoom_OK inputRoom_tidy by blast
qed

section \<open>Aims that are not finite\<close>

text \<open>
  On finite numbers the functions over numbers do what the functions over the reals do:
  the movement step, the split and the handler of \<^verbatim>\<open>/input\<close> of the sections above are
  those of this section on what \<open>ofBlob\<close> and \<open>ofAgent\<close> embed.
\<close>

lemma clampN_Fin: "clampN (Fin v) (Fin lo) (Fin hi) = Fin (clamp v lo hi)"
  by (simp add: clampN_def Math_min_def Math_max_def clamp_def min_def max_def)

lemma normalizeN_Fin:
  "normalizeN (Fin a) (Fin b) = (Fin (fst (normalize2D a b)), Fin (snd (normalize2D a b)))"
proof (cases "hypot a b < 1 / 1000000")
  case True
  then show ?thesis by (simp add: normalizeN_def normalize2D_def Let_def)
next
  case False
  then have "hypot a b \<noteq> 0" by simp
  with False show ?thesis by (simp add: normalizeN_def normalize2D_def Let_def)
qed

lemma moveClampN_ofBlob: "moveClampN (ofAgent a) tot (ofBlob b) = ofBlob (moveClamp a tot b)"
  by (simp add: moveClampN_def moveClamp_def ofAgent_def ofBlob_def Let_def clampN_Fin)

lemma plusN_zero: "plusN p (Fin 0) = p"
  by (cases p) simp_all

lemma plusN_NaN: "plusN p NaN = NaN"
  by (cases p) simp_all

lemma timesN_NaN: "timesN NaN p = NaN"
  by (cases p) simp_all

lemma clampN_NaN: "clampN NaN lo hi = NaN"
  by (simp add: clampN_def Math_min_def Math_max_def)

lemma scan_largest:
  fixes f :: "nat \<Rightarrow> real"
  assumes "b0 < m" "m \<le> n"
    and "\<forall>i<m. f i \<le> f b0"
    and "\<forall>i<b0. f i < f b0"
  shows "foldl (\<lambda>best i. if f i > f best then i else best) b0 [m..<n] < n
    \<and> (\<forall>i<n. f i \<le> f (foldl (\<lambda>best i. if f i > f best then i else best) b0 [m..<n]))
    \<and> (\<forall>i<foldl (\<lambda>best i. if f i > f best then i else best) b0 [m..<n].
          f i < f (foldl (\<lambda>best i. if f i > f best then i else best) b0 [m..<n]))"
  using assms
proof (induction n)
  case 0
  then show ?case by simp
next
  case (Suc n)
  let ?f = "\<lambda>best i. if f i > f best then i else best"
  show ?case
  proof (cases "m = Suc n")
    case True
    with Suc.prems show ?thesis by simp
  next
    case False
    with Suc.prems have mn: "m \<le> n" by simp
    note IH = Suc.IH [OF Suc.prems(1) mn Suc.prems(3,4)]
    let ?r = "foldl ?f b0 [m..<n]"
    have step: "foldl ?f b0 [m..<Suc n] = ?f ?r n"
      using mn by simp
    show ?thesis
    proof (cases "f n > f ?r")
      case True
      then have "foldl ?f b0 [m..<Suc n] = n" using step by simp
      moreover have "\<forall>i<Suc n. f i \<le> f n"
        using IH True by (auto simp: less_Suc_eq)
      moreover have "\<forall>i<n. f i < f n"
        using IH True by fastforce
      ultimately show ?thesis by simp
    next
      case False
      then have "foldl ?f b0 [m..<Suc n] = ?r" using step by simp
      moreover have "\<forall>i<Suc n. f i \<le> f ?r"
        using IH False by (auto simp: less_Suc_eq)
      ultimately show ?thesis using IH by auto
    qed
  qed
qed

lemma largestN_is_largest:
  assumes "bs \<noteq> []"
  shows "largestN bs < length bs
    \<and> (\<forall>i<length bs. radN (bs ! i) \<le> radN (bs ! largestN bs))
    \<and> (\<forall>i<largestN bs. radN (bs ! i) < radN (bs ! largestN bs))"
proof -
  have "0 < length bs" using assms by simp
  then have "(0::nat) < 1" "1 \<le> length bs"
    "\<forall>i<1. radN (bs ! i) \<le> radN (bs ! 0)" "\<forall>i<0::nat. radN (bs ! i) < radN (bs ! 0)"
    by (simp_all add: Suc_le_eq)
  from scan_largest [of 0 1 "length bs" "\<lambda>i. radN (bs ! i)", OF this] show ?thesis
    unfolding largestN_def by simp
qed

lemma radN_nth: "i < length bs \<Longrightarrow> radN (map ofBlob bs ! i) = rad (bs ! i)"
  by (simp add: ofBlob_def)

lemma largestN_scan:
  assumes "n \<le> length bs" "b0 < length bs"
  shows "foldl (\<lambda>best i. if radN (map ofBlob bs ! i) > radN (map ofBlob bs ! best) then i else best)
          b0 [m..<n]
      = foldl (\<lambda>best i. if rad (bs ! i) > rad (bs ! best) then i else best) b0 [m..<n]
    \<and> foldl (\<lambda>best i. if rad (bs ! i) > rad (bs ! best) then i else best) b0 [m..<n]
        < length bs"
  using assms
proof (induction n)
  case 0
  then show ?case by simp
next
  case (Suc n)
  show ?case
  proof (cases "m \<le> n")
    case False
    then show ?thesis using Suc.prems by simp
  next
    case True
    let ?g = "\<lambda>best i. if rad (bs ! i) > rad (bs ! best) then i else best"
    let ?h = "\<lambda>best i. if radN (map ofBlob bs ! i) > radN (map ofBlob bs ! best)
                then i else best"
    have IH: "foldl ?h b0 [m..<n] = foldl ?g b0 [m..<n]" "foldl ?g b0 [m..<n] < length bs"
      using Suc.IH Suc.prems by simp_all
    have n: "n < length bs" using Suc.prems by simp
    have "foldl ?h b0 [m..<Suc n] = ?h (foldl ?g b0 [m..<n]) n"
      using True by (simp add: IH(1))
    also have "\<dots> = ?g (foldl ?g b0 [m..<n]) n"
      by (simp only: radN_nth [OF n] radN_nth [OF IH(2)])
    also have "\<dots> = foldl ?g b0 [m..<Suc n]"
      using True by simp
    finally have e: "foldl ?h b0 [m..<Suc n] = foldl ?g b0 [m..<Suc n]" .
    have "foldl ?g b0 [m..<Suc n] = ?g (foldl ?g b0 [m..<n]) n"
      using True by simp
    then have "foldl ?g b0 [m..<Suc n] < length bs"
      using IH(2) n by simp
    with e show ?thesis by simp
  qed
qed

lemma largestN_ofBlob: "largestN (map ofBlob bs) = largest bs"
proof (cases "bs = []")
  case True
  then show ?thesis by (simp add: largestN_def largest_def)
next
  case False
  then have "0 < length bs" by simp
  from largestN_scan [OF le_refl this, of 1] show ?thesis
    by (simp add: largestN_def largest_def)
qed

lemma splitN_ofAgent: "splitN (ofAgent a) = ofAgent (split a)"
proof -
  have l: "largestN (blobsN (ofAgent a)) = largest (blobs a)"
    by (simp add: ofAgent_def largestN_ofBlob)
  show ?thesis
  proof (cases "largest (blobs a) < length (blobs a) \<and> rad (blobs a ! largest (blobs a)) \<ge> 14 * 2.2")
    case False
    then show ?thesis
      unfolding splitN_def split_def Let_def l
      by (auto simp: ofAgent_def ofBlob_def)
  next
    case True
    then show ?thesis
      unfolding splitN_def split_def Let_def l
      by (simp add: ofAgent_def normalizeN_Fin map_update)
        (simp add: ofBlob_def)
  qed
qed

lemma inputN_ofAgent:
  "inputN (ofAgent a) (Fin ax) (Fin ay) bst spl now
     = ofAgent (let a1 = setAim (a\<lparr>lastSeen := now\<rparr>) ax ay bst in if spl then split a1 else a1)"
proof -
  have z: "normalizeN (orZero (Fin ax)) (orZero (Fin ay))
      = (Fin (fst (normalize2D ax ay)), Fin (snd (normalize2D ax ay)))"
    by (auto simp: orZero_def normalizeN_Fin)
  have a1: "(ofAgent a)\<lparr>lastSeenN := now, aimXN := Fin (fst (normalize2D ax ay)),
                aimYN := Fin (snd (normalize2D ax ay)), boostN := bst\<rparr>
      = ofAgent (setAim (a\<lparr>lastSeen := now\<rparr>) ax ay bst)"
    by (simp add: ofAgent_def setAim_def Let_def)
  show ?thesis
    unfolding inputN_def Let_def z fst_conv snd_conv a1
    by (simp add: splitN_ofAgent)
qed


subsection \<open>The boundary clamp\<close>

text \<open>
  C2, as amended. For a blob whose position is finite, of an agent whose aim is finite:
  right after the displacement along the aim and the clamp of the movement step, the
  position is finite, and the centre is at least one radius away from the lower edges; it
  is at least one radius away from the upper edges when the radius is at most half the
  world size, and otherwise both coordinates equal the radius. The radius is not changed.
\<close>

theorem moveClampN_bounds:
  assumes "aimXN a = Fin ax" "aimYN a = Fin ay" "posxN b = Fin x" "posyN b = Fin y"
  shows "\<exists>x' y'. posxN (moveClampN a tot b) = Fin x' \<and> posyN (moveClampN a tot b) = Fin y'
     \<and> radN (moveClampN a tot b) = radN b
     \<and> radN b \<le> x' \<and> radN b \<le> y'
     \<and> (radN b \<le> WORLD / 2 \<longrightarrow> x' \<le> WORLD - radN b \<and> y' \<le> WORLD - radN b)
     \<and> (WORLD / 2 < radN b \<longrightarrow> x' = radN b \<and> y' = radN b)"
  using assms
  by (simp add: moveClampN_def Let_def clampN_Fin clamp_def WORLD_def min_def max_def)

theorem moveClampN_bounds_witness:
  "aimXN (ofAgent (agentOf ''p'' False 1 0 [])) = Fin 1
   \<and> aimYN (ofAgent (agentOf ''p'' False 1 0 [])) = Fin 0
   \<and> posxN (ofBlob (blobAt 5190 100 55 36)) = Fin 5190
   \<and> posyN (ofBlob (blobAt 5190 100 55 36)) = Fin 100
   \<and> radN (ofBlob (blobAt 5190 100 55 36)) \<le> WORLD / 2
   \<and> posxN (moveClampN (ofAgent (agentOf ''p'' False 1 0 [])) 55 (ofBlob (blobAt 5190 100 55 36)))
       = Fin 5164
   \<and> posyN (moveClampN (ofAgent (agentOf ''p'' False 1 0 [])) 55 (ofBlob (blobAt 5190 100 55 36)))
       = Fin 100
   \<and> 5164 \<le> WORLD - radN (ofBlob (blobAt 5190 100 55 36))"
  using moveClampN_bounds [of "ofAgent (agentOf ''p'' False 1 0 [])" 1 0
      "ofBlob (blobAt 5190 100 55 36)" 5190 100 55]
  by (simp add: moveClampN_def clampN_Fin clamp_def Let_def WORLD_def blobAt_def agentOf_def
      ofAgent_def ofBlob_def baseSpeed_def DT_def TICK_RATE_def)


text \<open>
  A blob of radius 3000 at (1000, 1000): the clamp puts its centre at 3000, beyond
  \<open>WORLD - 3000 = 2200\<close>.
\<close>

theorem clampN_counterexample:
  "posxN (moveClampN (ofAgent (agentOf ''p'' False 1 0 [])) 60000
            (ofBlob (blobAt 1000 1000 60000 3000))) = Fin 3000
   \<and> WORLD - radN (moveClampN (ofAgent (agentOf ''p'' False 1 0 [])) 60000
            (ofBlob (blobAt 1000 1000 60000 3000))) = 2200"
  by (simp add: moveClampN_def clampN_Fin clamp_def Let_def WORLD_def blobAt_def agentOf_def
      ofAgent_def ofBlob_def baseSpeed_def DT_def TICK_RATE_def)


text \<open>
  An aim with an infinite component is stored with a NaN component, and a NaN in the aim
  or in the position is a NaN in the position after the clamp.
\<close>

lemma inputN_infinite:
  "aimXN (inputN a PosInf (Fin 0) bst False now) = NaN"
  "aimYN (inputN a PosInf (Fin 0) bst False now) = Fin 0"
  by (simp_all add: inputN_def orZero_def normalizeN_def Let_def)

lemma moveClampN_NaN:
  "aimXN a = NaN \<Longrightarrow> posxN (moveClampN a tot b) = NaN"
  "aimYN a = NaN \<Longrightarrow> posyN (moveClampN a tot b) = NaN"
  "posxN b = NaN \<Longrightarrow> posxN (moveClampN a tot b) = NaN"
  "posyN b = NaN \<Longrightarrow> posyN (moveClampN a tot b) = NaN"
  by (simp_all add: moveClampN_def Let_def timesN_NaN plusN_NaN clampN_NaN)


subsection \<open>The voluntary split\<close>

text \<open>
  C3, as amended. A split request selects the first blob of largest radius. If its radius
  is at least \<open>14 * 2.2\<close>, the blob keeps its place, position and velocity with half its
  mass and 0.72 of its radius, and a sibling with the other half of the mass and the same
  radius is appended; the two masses sum to the mass before, and both split timers are 0.
  The sibling's centre is the blob's centre plus \<open>dir * (radius + 8)\<close> and its velocity is
  \<open>dir * 580\<close>, where \<open>dir\<close> is the normalized aim and the radius is the shrunken one. When
  the agent's aim is finite and at least 1e-6 long, \<open>dir\<close> is finite and of length 1, the
  sibling moves at speed 580 and, when the blob's position is finite, lies at distance
  \<open>radius + 8\<close> from the blob along the aim; when the aim is finite and shorter, \<open>dir\<close> is
  zero, and the sibling lies on the blob's centre and has no velocity. If the agent has no
  blob or the radius is below \<open>14 * 2.2\<close>, the agent is unchanged.
\<close>

theorem splitN_spec:
  fixes a :: agentN
  defines "bs \<equiv> blobsN a" and "b \<equiv> blobsN a ! largestN (blobsN a)"
    and "dir \<equiv> normalizeN (aimXN a) (aimYN a)"
  shows "(bs \<noteq> [] \<longrightarrow>
            largestN bs < length bs \<and> (\<forall>i<length bs. radN (bs ! i) \<le> radN b)
            \<and> (\<forall>i<largestN bs. radN (bs ! i) < radN b))
    \<and> (bs \<noteq> [] \<longrightarrow> 14 * 2.2 \<le> radN b \<longrightarrow>
         (\<exists>b' sib.
            blobsN (splitN a) = bs[largestN bs := b'] @ [sib]
            \<and> (splitN a)\<lparr>blobsN := bs\<rparr> = a
            \<and> massN b' + massN sib = massN b \<and> massN b' = massN b / 2
            \<and> massN sib = massN b / 2
            \<and> radN b' = 0.72 * radN b \<and> radN sib = radN b'
            \<and> posxN b' = posxN b \<and> posyN b' = posyN b
            \<and> velxN b' = velxN b \<and> velyN b' = velyN b
            \<and> posxN sib = plusN (posxN b') (timesN (fst dir) (Fin (radN b' + 8)))
            \<and> posyN sib = plusN (posyN b') (timesN (snd dir) (Fin (radN b' + 8)))
            \<and> velxN sib = timesN (fst dir) (Fin 580) \<and> velyN sib = timesN (snd dir) (Fin 580)
            \<and> splitTimerN b' = 0 \<and> splitTimerN sib = 0
            \<and> (\<forall>ax ay. aimXN a = Fin ax \<and> aimYN a = Fin ay \<and> 1 / 1000000 \<le> hypot ax ay \<longrightarrow>
                  (\<exists>dx dy. dir = (Fin dx, Fin dy) \<and> hypot dx dy = 1
                     \<and> velxN sib = Fin (dx * 580) \<and> velyN sib = Fin (dy * 580)
                     \<and> hypot (dx * 580) (dy * 580) = 580
                     \<and> hypot (dx * (radN b' + 8)) (dy * (radN b' + 8)) = radN b' + 8
                     \<and> (\<forall>x y. posxN b = Fin x \<and> posyN b = Fin y \<longrightarrow>
                          posxN sib = Fin (x + dx * (radN b' + 8))
                          \<and> posyN sib = Fin (y + dy * (radN b' + 8)))))
            \<and> (\<forall>ax ay. aimXN a = Fin ax \<and> aimYN a = Fin ay \<and> hypot ax ay < 1 / 1000000 \<longrightarrow>
                  dir = (Fin 0, Fin 0) \<and> posxN sib = posxN b' \<and> posyN sib = posyN b'
                  \<and> velxN sib = Fin 0 \<and> velyN sib = Fin 0)))
    \<and> (bs = [] \<or> radN b < 14 * 2.2 \<longrightarrow> splitN a = a)"
proof (intro conjI impI)
  assume "bs \<noteq> []"
  then show "largestN bs < length bs" "\<forall>i<length bs. radN (bs ! i) \<le> radN b"
    "\<forall>i<largestN bs. radN (bs ! i) < radN b"
    using largestN_is_largest [of bs] by (simp_all add: bs_def b_def)
next
  assume "bs = [] \<or> radN b < 14 * 2.2"
  then show "splitN a = a"
    by (auto simp: splitN_def Let_def bs_def b_def)
next
  assume ne: "bs \<noteq> []" and big: "14 * 2.2 \<le> radN b"
  have best: "largestN bs < length bs" using largestN_is_largest [OF ne] by simp
  define b' where
    "b' = b\<lparr>massN := massN b * 0.5, radN := max 14 (radN b * 0.72), splitTimerN := 0\<rparr>"
  define sib where
    "sib = \<lparr>posxN = plusN (posxN b) (timesN (fst dir) (Fin (max 14 (radN b * 0.72) + 8))),
            posyN = plusN (posyN b) (timesN (snd dir) (Fin (max 14 (radN b * 0.72) + 8))),
            velxN = timesN (fst dir) (Fin 580), velyN = timesN (snd dir) (Fin 580),
            massN = massN b * 0.5, radN = max 14 (max 14 (radN b * 0.72)),
            splitTimerN = 0\<rparr>"
  have props: "massN b' + massN sib = massN b" "massN b' = massN b / 2"
    "massN sib = massN b / 2"
    "radN b' = 0.72 * radN b" "radN sib = radN b'"
    "posxN b' = posxN b" "posyN b' = posyN b" "velxN b' = velxN b" "velyN b' = velyN b"
    "posxN sib = plusN (posxN b') (timesN (fst dir) (Fin (radN b' + 8)))"
    "posyN sib = plusN (posyN b') (timesN (snd dir) (Fin (radN b' + 8)))"
    "velxN sib = timesN (fst dir) (Fin 580)" "velyN sib = timesN (snd dir) (Fin 580)"
    "splitTimerN b' = 0" "splitTimerN sib = 0"
    using big by (simp_all add: b'_def sib_def max_def)
  have sp: "splitN a = a\<lparr>blobsN := bs[largestN bs := b'] @ [sib]\<rparr>"
    using best big by (simp add: splitN_def Let_def bs_def b_def b'_def sib_def dir_def)
  have c1: "blobsN (splitN a) = bs[largestN bs := b'] @ [sib]" by (simp add: sp)
  have c2: "(splitN a)\<lparr>blobsN := bs\<rparr> = a" by (simp add: sp bs_def)
  have unit: "\<exists>dx dy. dir = (Fin dx, Fin dy) \<and> hypot dx dy = 1
                     \<and> velxN sib = Fin (dx * 580) \<and> velyN sib = Fin (dy * 580)
                     \<and> hypot (dx * 580) (dy * 580) = 580
                     \<and> hypot (dx * (radN b' + 8)) (dy * (radN b' + 8)) = radN b' + 8
                     \<and> (\<forall>x y. posxN b = Fin x \<and> posyN b = Fin y \<longrightarrow>
                          posxN sib = Fin (x + dx * (radN b' + 8))
                          \<and> posyN sib = Fin (y + dy * (radN b' + 8)))"
    if h: "aimXN a = Fin ax \<and> aimYN a = Fin ay \<and> 1 / 1000000 \<le> hypot ax ay" for ax ay
  proof -
    define dx where "dx = fst (normalize2D ax ay)"
    define dy where "dy = snd (normalize2D ax ay)"
    have d: "dir = (Fin dx, Fin dy)"
      using h by (simp add: dir_def normalizeN_Fin dx_def dy_def)
    have one: "hypot dx dy = 1"
      using normalize2D_unit(2) [of ax ay] h by (simp add: dx_def dy_def)
    have r: "0 \<le> radN b' + 8" using big by (simp add: props)
    have v: "hypot (dx * 580) (dy * 580) = 580"
      by (simp add: hypot_scale one)
    have p: "hypot (dx * (radN b' + 8)) (dy * (radN b' + 8)) = radN b' + 8"
      using r by (simp add: hypot_scale one)
    have vel: "velxN sib = Fin (dx * 580)" "velyN sib = Fin (dy * 580)"
      by (simp_all add: props d)
    have pos: "posxN sib = Fin (x + dx * (radN b' + 8))
        \<and> posyN sib = Fin (y + dy * (radN b' + 8))"
      if "posxN b = Fin x \<and> posyN b = Fin y" for x y
      using that by (simp add: props(6,7,10,11) d)
    show ?thesis
      apply (rule exI [of _ dx])
      apply (rule exI [of _ dy])
      using d one v p vel pos by (intro conjI allI impI) (simp_all only:)
  qed
  have zero: "dir = (Fin 0, Fin 0) \<and> posxN sib = posxN b' \<and> posyN sib = posyN b'
                  \<and> velxN sib = Fin 0 \<and> velyN sib = Fin 0"
    if h: "aimXN a = Fin ax \<and> aimYN a = Fin ay \<and> hypot ax ay < 1 / 1000000" for ax ay
  proof -
    have d: "dir = (Fin 0, Fin 0)"
      using h normalize2D_zero [of ax ay] by (simp add: dir_def normalizeN_Fin)
    show ?thesis
      by (simp add: props(10-13) d plusN_zero)
  qed
  have unitQ: "\<forall>ax ay. aimXN a = Fin ax \<and> aimYN a = Fin ay \<and> 1 / 1000000 \<le> hypot ax ay \<longrightarrow>
                  (\<exists>dx dy. dir = (Fin dx, Fin dy) \<and> hypot dx dy = 1
                     \<and> velxN sib = Fin (dx * 580) \<and> velyN sib = Fin (dy * 580)
                     \<and> hypot (dx * 580) (dy * 580) = 580
                     \<and> hypot (dx * (radN b' + 8)) (dy * (radN b' + 8)) = radN b' + 8
                     \<and> (\<forall>x y. posxN b = Fin x \<and> posyN b = Fin y \<longrightarrow>
                          posxN sib = Fin (x + dx * (radN b' + 8))
                          \<and> posyN sib = Fin (y + dy * (radN b' + 8))))"
    using unit by blast
  have zeroQ: "\<forall>ax ay. aimXN a = Fin ax \<and> aimYN a = Fin ay \<and> hypot ax ay < 1 / 1000000 \<longrightarrow>
                  dir = (Fin 0, Fin 0) \<and> posxN sib = posxN b' \<and> posyN sib = posyN b'
                  \<and> velxN sib = Fin 0 \<and> velyN sib = Fin 0"
    using zero by blast
  show "\<exists>b' sib.
            blobsN (splitN a) = bs[largestN bs := b'] @ [sib]
            \<and> (splitN a)\<lparr>blobsN := bs\<rparr> = a
            \<and> massN b' + massN sib = massN b \<and> massN b' = massN b / 2
            \<and> massN sib = massN b / 2
            \<and> radN b' = 0.72 * radN b \<and> radN sib = radN b'
            \<and> posxN b' = posxN b \<and> posyN b' = posyN b
            \<and> velxN b' = velxN b \<and> velyN b' = velyN b
            \<and> posxN sib = plusN (posxN b') (timesN (fst dir) (Fin (radN b' + 8)))
            \<and> posyN sib = plusN (posyN b') (timesN (snd dir) (Fin (radN b' + 8)))
            \<and> velxN sib = timesN (fst dir) (Fin 580) \<and> velyN sib = timesN (snd dir) (Fin 580)
            \<and> splitTimerN b' = 0 \<and> splitTimerN sib = 0
            \<and> (\<forall>ax ay. aimXN a = Fin ax \<and> aimYN a = Fin ay \<and> 1 / 1000000 \<le> hypot ax ay \<longrightarrow>
                  (\<exists>dx dy. dir = (Fin dx, Fin dy) \<and> hypot dx dy = 1
                     \<and> velxN sib = Fin (dx * 580) \<and> velyN sib = Fin (dy * 580)
                     \<and> hypot (dx * 580) (dy * 580) = 580
                     \<and> hypot (dx * (radN b' + 8)) (dy * (radN b' + 8)) = radN b' + 8
                     \<and> (\<forall>x y. posxN b = Fin x \<and> posyN b = Fin y \<longrightarrow>
                          posxN sib = Fin (x + dx * (radN b' + 8))
                          \<and> posyN sib = Fin (y + dy * (radN b' + 8)))))
            \<and> (\<forall>ax ay. aimXN a = Fin ax \<and> aimYN a = Fin ay \<and> hypot ax ay < 1 / 1000000 \<longrightarrow>
                  dir = (Fin 0, Fin 0) \<and> posxN sib = posxN b' \<and> posyN sib = posyN b'
                  \<and> velxN sib = Fin 0 \<and> velyN sib = Fin 0)"
    apply (rule exI [of _ b'])
    apply (rule exI [of _ sib])
    by (intro conjI) (fact c1 c2 props unitQ zeroQ)+
qed


lemma largest_splitter: "largest (blobs splitter) = 1"
  by (simp add: largest_def splitter_def agentOf_def blobAt_def)

theorem splitN_spec_witness:
  "blobsN (ofAgent splitter) \<noteq> []
   \<and> 14 * 2.2 \<le> radN (blobsN (ofAgent splitter) ! largestN (blobsN (ofAgent splitter)))
   \<and> aimXN (ofAgent splitter) = Fin 1 \<and> aimYN (ofAgent splitter) = Fin 0
   \<and> 1 / 1000000 \<le> hypot 1 0
   \<and> (\<exists>b' sib. blobsN (splitN (ofAgent splitter)) = [ofBlob (blobAt 100 100 20 20), b', sib]
         \<and> massN b' + massN sib = 55 \<and> radN b' = 25.92
         \<and> posxN b' = Fin 1000 \<and> posyN b' = Fin 1000
         \<and> posxN sib = Fin 1033.92 \<and> posyN sib = Fin 1000
         \<and> velxN sib = Fin 580 \<and> velyN sib = Fin 0
         \<and> splitTimerN b' = 0 \<and> splitTimerN sib = 0)
   \<and> (blobsN (ofAgent smallOne) = []
       \<or> radN (blobsN (ofAgent smallOne) ! largestN (blobsN (ofAgent smallOne))) < 14 * 2.2)
   \<and> splitN (ofAgent smallOne) = ofAgent smallOne"
proof -
  let ?a = "ofAgent splitter"
  have l: "largestN (blobsN ?a) = 1"
    by (simp add: ofAgent_def largestN_ofBlob largest_splitter)
  have bl: "blobsN ?a = [ofBlob (blobAt 100 100 20 20), ofBlob (blobAt 1000 1000 55 36)]"
    by (simp add: ofAgent_def splitter_def agentOf_def)
  have ne: "blobsN ?a \<noteq> []" by (simp add: bl)
  have b: "blobsN ?a ! largestN (blobsN ?a) = ofBlob (blobAt 1000 1000 55 36)"
    unfolding l by (simp add: bl)
  have big: "14 * 2.2 \<le> radN (blobsN ?a ! largestN (blobsN ?a))"
    unfolding b by (simp add: ofBlob_def blobAt_def)
  have aim: "aimXN ?a = Fin 1" "aimYN ?a = Fin 0"
    by (simp_all add: ofAgent_def splitter_def agentOf_def)
  have h: "1 / 1000000 \<le> hypot 1 0" by (simp add: hypot_axis)
  have dir: "normalizeN (aimXN ?a) (aimYN ?a) = (Fin 1, Fin 0)"
    by (simp add: aim normalizeN_def hypot_axis)
  from splitN_spec [of ?a, THEN conjunct2, THEN conjunct1, rule_format, OF ne big]
  obtain b' sib where s:
    "blobsN (splitN ?a) = (blobsN ?a)[largestN (blobsN ?a) := b'] @ [sib]"
    "massN b' + massN sib = massN (blobsN ?a ! largestN (blobsN ?a))"
    "radN b' = 0.72 * radN (blobsN ?a ! largestN (blobsN ?a))"
    "posxN b' = posxN (blobsN ?a ! largestN (blobsN ?a))"
    "posyN b' = posyN (blobsN ?a ! largestN (blobsN ?a))"
    "splitTimerN b' = 0" "splitTimerN sib = 0"
    and u: "\<forall>ax ay. aimXN ?a = Fin ax \<and> aimYN ?a = Fin ay \<and> 1 / 1000000 \<le> hypot ax ay \<longrightarrow>
       (\<exists>dx dy. normalizeN (aimXN ?a) (aimYN ?a) = (Fin dx, Fin dy) \<and> hypot dx dy = 1
          \<and> velxN sib = Fin (dx * 580) \<and> velyN sib = Fin (dy * 580)
          \<and> hypot (dx * 580) (dy * 580) = 580
          \<and> hypot (dx * (radN b' + 8)) (dy * (radN b' + 8)) = radN b' + 8
          \<and> (\<forall>x y. posxN (blobsN ?a ! largestN (blobsN ?a)) = Fin x
                  \<and> posyN (blobsN ?a ! largestN (blobsN ?a)) = Fin y \<longrightarrow>
               posxN sib = Fin (x + dx * (radN b' + 8))
               \<and> posyN sib = Fin (y + dy * (radN b' + 8))))"
    by blast
  from u [rule_format, of 1 0] aim h
  obtain dx dy where d: "normalizeN (aimXN ?a) (aimYN ?a) = (Fin dx, Fin dy)"
    "velxN sib = Fin (dx * 580)" "velyN sib = Fin (dy * 580)"
    and pos: "\<forall>x y. posxN (blobsN ?a ! largestN (blobsN ?a)) = Fin x
                  \<and> posyN (blobsN ?a ! largestN (blobsN ?a)) = Fin y \<longrightarrow>
               posxN sib = Fin (x + dx * (radN b' + 8))
               \<and> posyN sib = Fin (y + dy * (radN b' + 8))"
    by blast
  have dxy: "dx = 1" "dy = 0" using d(1) dir by simp_all
  have r: "radN b' = 25.92" using s(3) unfolding b by (simp add: ofBlob_def blobAt_def)
  have "posxN sib = Fin (1000 + dx * (radN b' + 8)) \<and> posyN sib = Fin (1000 + dy * (radN b' + 8))"
    using pos [rule_format, of 1000 1000] unfolding b by (simp add: ofBlob_def blobAt_def)
  then have ps: "posxN sib = Fin 1033.92" "posyN sib = Fin 1000"
    by (simp_all add: dxy r)
  have s1: "blobsN (splitN ?a) = [ofBlob (blobAt 100 100 20 20), b', sib]"
    using s(1) unfolding l by (simp add: bl)
  have m: "massN b' + massN sib = 55"
    using s(2) unfolding b by (simp add: ofBlob_def blobAt_def)
  have px: "posxN b' = Fin 1000" "posyN b' = Fin 1000"
    using s(4,5) unfolding b by (simp_all add: ofBlob_def blobAt_def)
  have vel: "velxN sib = Fin 580" "velyN sib = Fin 0"
    using d(2,3) by (simp_all add: dxy)
  have A: "\<exists>b' sib. blobsN (splitN ?a) = [ofBlob (blobAt 100 100 20 20), b', sib]
         \<and> massN b' + massN sib = 55 \<and> radN b' = 25.92
         \<and> posxN b' = Fin 1000 \<and> posyN b' = Fin 1000
         \<and> posxN sib = Fin 1033.92 \<and> posyN sib = Fin 1000
         \<and> velxN sib = Fin 580 \<and> velyN sib = Fin 0
         \<and> splitTimerN b' = 0 \<and> splitTimerN sib = 0"
    apply (rule exI [of _ b'])
    apply (rule exI [of _ sib])
    by (intro conjI) (fact s1 m r px ps vel s(6,7))+
  have small: "blobsN (ofAgent smallOne) = []
      \<or> radN (blobsN (ofAgent smallOne) ! largestN (blobsN (ofAgent smallOne))) < 14 * 2.2"
    by (simp add: largestN_def smallOne_def agentOf_def blobAt_def ofAgent_def ofBlob_def)
  from splitN_spec [of "ofAgent smallOne", THEN conjunct2, THEN conjunct2, rule_format, OF small]
  have B: "splitN (ofAgent smallOne) = ofAgent smallOne" .
  show ?thesis using ne big aim h A small B by (intro conjI)
qed


text \<open>
  A request that asks for a split and gives no aim, for a human with one blob of radius 36:
  the aim is (0, 0), and the sibling is created on the blob's centre with no velocity.
\<close>

theorem splitN_counterexample:
  "blobsN (inputN (ofAgent (agentOf ''p'' False 0 0 [blobAt 1000 1000 55 36])) NaN NaN False True 7)
     = [\<lparr>posxN = Fin 1000, posyN = Fin 1000, velxN = Fin 0, velyN = Fin 0, massN = 27.5,
         radN = 25.92, splitTimerN = 0\<rparr>,
        \<lparr>posxN = Fin 1000, posyN = Fin 1000, velxN = Fin 0, velyN = Fin 0, massN = 27.5,
         radN = 25.92, splitTimerN = 0\<rparr>]"
  by (simp add: inputN_def orZero_def normalizeN_def hypot_def splitN_def largestN_def Let_def
      ofAgent_def ofBlob_def agentOf_def blobAt_def)


text \<open>
  With a NaN in the aim (the aim that an infinite component leaves), the sibling is created
  at NaN with a NaN velocity.
\<close>

lemma splitN_NaN:
  assumes "aimXN a = NaN" "aimYN a = Fin ay" "blobsN a \<noteq> []"
    "14 * 2.2 \<le> radN (blobsN a ! largestN (blobsN a))"
  shows "posxN (last (blobsN (splitN a))) = NaN \<and> posyN (last (blobsN (splitN a))) = NaN
    \<and> velxN (last (blobsN (splitN a))) = NaN \<and> velyN (last (blobsN (splitN a))) = NaN"
proof -
  have l: "largestN (blobsN a) < length (blobsN a)"
    using largestN_is_largest [OF assms(3)] by simp
  have n: "normalizeN NaN (Fin ay) = (NaN, NaN)"
    by (simp add: normalizeN_def)
  show ?thesis
    using l assms(4) by (simp add: splitN_def Let_def assms(1,2) n plusN_NaN timesN_NaN)
qed

lemma inputN_infinite_split:
  "blobsN (inputN (ofAgent (agentOf ''p'' False 0 0 [blobAt 1000 1000 55 36]))
             PosInf (Fin 0) False True 7)
     = [\<lparr>posxN = Fin 1000, posyN = Fin 1000, velxN = Fin 0, velyN = Fin 0, massN = 27.5,
         radN = 25.92, splitTimerN = 0\<rparr>,
        \<lparr>posxN = NaN, posyN = NaN, velxN = NaN, velyN = NaN, massN = 27.5,
         radN = 25.92, splitTimerN = 0\<rparr>]"
  by (simp add: inputN_def orZero_def normalizeN_def hypot_def splitN_def largestN_def Let_def
      ofAgent_def ofBlob_def agentOf_def blobAt_def)


section \<open>The engulfment phase against its description\<close>

text \<open>
  The code's test and the code's growth are the description's, for an eater of mass at
  least 1; and the records of the blob loops of an agent pair, applied as the description
  says, make the pair's blob lists after the loops out of those before.
\<close>

lemma eatBlob_afterEating: "1 \<le> mass e \<Longrightarrow> eatBlob e p = afterEating e p"
  by (simp add: eatBlob_def afterEating_def appliedGain_def grow_def clamp_def Let_def
      max_def min_def)

lemma engulfs_mayEngulf: "engulfs e p \<longleftrightarrow> mayEngulf e p"
  by (simp add: engulfs_def mayEngulf_def canEat_def canEngulf_def hypot_def Let_def)

lemma replay_append:
  "replay (t1 @ t2) bss = (case replay t1 bss of None \<Rightarrow> None | Some bss' \<Rightarrow> replay t2 bss')"
  by (induction t1 arbitrary: bss) (simp_all split: option.splits)

lemma update_twice:
  "i \<noteq> j \<Longrightarrow> bss[i := a, j := b, i := c, j := d] = bss[i := c, j := d]"
  by (simp add: list_update_swap [of i j])

lemma inner_replay:
  assumes "i \<noteq> j" "i < length bss" "j < length bss"
    and "ai < length As" "\<forall>x \<in> set As. 1 \<le> mass x" "\<forall>x \<in> set Bs. 1 \<le> mass x"
    and "bss ! i = As" "bss ! j = Bs"
  shows "replay (map (\<lambda>e. (i, j, e)) (snd (snd (engulfInner ai n As Bs)))) bss
       = Some (bss[i := fst (engulfInner ai n As Bs), j := fst (snd (engulfInner ai n As Bs))])"
  using assms(2-)
proof (induction n arbitrary: As Bs bss)
  case 0
  then have "bss[i := As, j := Bs] = bss" by (metis list_update_id)
  then show ?case by simp
next
  case (Suc bi)
  note ij = assms(1)
  show ?case
  proof (cases "bi \<ge> length Bs")
    case True
    then show ?thesis using Suc.IH [OF Suc.prems] by simp
  next
    case False
    then have bi: "bi < length Bs" by simp
    let ?ab = "As ! ai" and ?bb = "Bs ! bi"
    have ab: "1 \<le> mass ?ab" using Suc.prems by simp
    have bb: "1 \<le> mass ?bb" using Suc.prems bi by simp
    consider (a) "engulfs ?ab ?bb"
      | (b) "\<not> engulfs ?ab ?bb" "engulfs ?bb ?ab"
      | (c) "\<not> engulfs ?ab ?bb" "\<not> engulfs ?bb ?ab"
      by blast
    then show ?thesis
    proof cases
      case a
      let ?As1 = "As[ai := eatBlob ?ab ?bb]" and ?Bs1 = "removeAt bi Bs"
      let ?bss1 = "bss[i := ?As1, j := ?Bs1]"
      have ev: "specEvent (i, j, Engulfment True ai bi ?ab ?bb (eatBlob ?ab ?bb)) bss = Some ?bss1"
        using ij Suc.prems bi a ab
        by (simp add: specEvent_def engulfs_mayEngulf eatBlob_afterEating removeAt_def)
      have P1: "\<forall>x \<in> set ?As1. 1 \<le> mass x"
        using set_update_OK [of As "\<lambda>b. 1 \<le> mass b", OF Suc.prems(4) eatBlob_heavy [OF ab bb]] .
      have P2: "\<forall>x \<in> set ?Bs1. 1 \<le> mass x"
        using set_removeAt_OK [of Bs "\<lambda>b. 1 \<le> mass b", OF Suc.prems(5)] .
      have l: "i < length ?bss1" "j < length ?bss1" "ai < length ?As1"
        using Suc.prems by simp_all
      have n: "?bss1 ! i = ?As1" "?bss1 ! j = ?Bs1"
        using ij Suc.prems by simp_all
      note IH = Suc.IH [OF l P1 P2 n]
      have e: "engulfInner ai (Suc bi) As Bs
          = (fst (engulfInner ai bi ?As1 ?Bs1), fst (snd (engulfInner ai bi ?As1 ?Bs1)),
             Engulfment True ai bi ?ab ?bb (eatBlob ?ab ?bb)
               # snd (snd (engulfInner ai bi ?As1 ?Bs1)))"
        using bi a by (simp add: Let_def case_prod_beta)
      show ?thesis
        unfolding e fst_conv snd_conv list.map replay.simps ev option.case IH
        by (simp only: update_twice [OF ij])
    next
      case b
      let ?As1 = "removeAt ai As" and ?Bs1 = "Bs[bi := eatBlob ?bb ?ab]"
      have ev: "specEvent (i, j, Engulfment False ai bi ?bb ?ab (eatBlob ?bb ?ab)) bss
          = Some (bss[j := ?Bs1, i := ?As1])"
        using ij Suc.prems bi b bb
        by (simp add: specEvent_def engulfs_mayEngulf eatBlob_afterEating removeAt_def)
      have e: "engulfInner ai (Suc bi) As Bs
          = (?As1, ?Bs1, [Engulfment False ai bi ?bb ?ab (eatBlob ?bb ?ab)])"
        using bi b by (simp add: Let_def)
      show ?thesis
        unfolding e fst_conv snd_conv list.map replay.simps ev option.case
        using ij by (simp add: list_update_swap [of i j])
    next
      case c
      then show ?thesis
        using Suc.IH [OF Suc.prems] bi by (simp add: Let_def)
    qed
  qed
qed

lemma outer_replay:
  assumes "i \<noteq> j" "i < length bss" "j < length bss"
    and "\<forall>x \<in> set As. 1 \<le> mass x" "\<forall>x \<in> set Bs. 1 \<le> mass x"
    and "bss ! i = As" "bss ! j = Bs"
  shows "replay (map (\<lambda>e. (i, j, e)) (snd (snd (engulfOuter n As Bs)))) bss
       = Some (bss[i := fst (engulfOuter n As Bs), j := fst (snd (engulfOuter n As Bs))])"
  using assms(2-)
proof (induction n arbitrary: As Bs bss)
  case 0
  then have "bss[i := As, j := Bs] = bss" by (metis list_update_id)
  then show ?case by simp
next
  case (Suc ai)
  note ij = assms(1)
  show ?case
  proof (cases "ai \<ge> length As")
    case True
    then show ?thesis using Suc.IH [OF Suc.prems] by simp
  next
    case False
    then have ai: "ai < length As" by simp
    let ?in = "engulfInner ai (length Bs) As Bs"
    let ?As1 = "fst ?in" and ?Bs1 = "fst (snd ?in)" and ?t1 = "snd (snd ?in)"
    let ?bss1 = "bss[i := ?As1, j := ?Bs1]"
    note inner = engulfInner_events [of "\<lambda>b. 1 \<le> mass b", OF eatBlob_heavy ai Suc.prems(3,4),
        of "length Bs"]
    have r1: "replay (map (\<lambda>e. (i, j, e)) ?t1) bss = Some ?bss1"
      using inner_replay [OF ij Suc.prems(1,2) ai Suc.prems(3-)] .
    have l: "i < length ?bss1" "j < length ?bss1" using Suc.prems by simp_all
    have n: "?bss1 ! i = ?As1" "?bss1 ! j = ?Bs1" using ij Suc.prems by simp_all
    note IH = Suc.IH [OF l inner [THEN conjunct1] inner [THEN conjunct2, THEN conjunct1] n]
    have e: "engulfOuter (Suc ai) As Bs
        = (fst (engulfOuter ai ?As1 ?Bs1), fst (snd (engulfOuter ai ?As1 ?Bs1)),
           ?t1 @ snd (snd (engulfOuter ai ?As1 ?Bs1)))"
      using ai by (simp add: case_prod_beta)
    have "replay (map (\<lambda>e. (i, j, e)) (?t1 @ snd (snd (engulfOuter ai ?As1 ?Bs1)))) bss
        = replay (map (\<lambda>e. (i, j, e)) (snd (snd (engulfOuter ai ?As1 ?Bs1)))) ?bss1"
      by (simp only: map_append replay_append r1 option.case)
    also have "\<dots> = Some (?bss1[i := fst (engulfOuter ai ?As1 ?Bs1),
                                 j := fst (snd (engulfOuter ai ?As1 ?Bs1))])"
      by (rule IH)
    also have "\<dots> = Some (bss[i := fst (engulfOuter ai ?As1 ?Bs1),
                               j := fst (snd (engulfOuter ai ?As1 ?Bs1))])"
      by (simp only: update_twice [OF ij])
    finally show ?thesis
      unfolding e fst_conv snd_conv .
  qed
qed

lemma engulfPair_replay:
  assumes "i \<noteq> j" "i < length bss" "j < length bss"
    and "\<forall>x \<in> set (blobs A). 1 \<le> mass x" "\<forall>x \<in> set (blobs B). 1 \<le> mass x"
    and "bss ! i = blobs A" "bss ! j = blobs B"
  shows "replay (map (\<lambda>e. (i, j, e)) (snd (snd (engulfPair A B)))) bss
       = Some (bss[i := blobs (fst (engulfPair A B)), j := blobs (fst (snd (engulfPair A B)))])"
  unfolding engulfPair_blobs engulfBlobs_def
  using assms by (rule outer_replay)

lemma engulfJ_replay:
  assumes inv: "engulfInv (\<lambda>b. 1 \<le> mass b) n st"
    and r: "replay (snd st) bss0 = Some (map blobs (fst st))"
    and ij: "i < j" "j < length (fst st)"
  shows "replay (snd (engulfJ i st j)) bss0 = Some (map blobs (fst (engulfJ i st j)))"
proof (cases "dead (fst st ! j)")
  case True
  then show ?thesis using r by (simp add: engulfJ_def case_prod_beta)
next
  case False
  obtain arr tr where st: "st = (arr, tr)" by (cases st)
  let ?p = "engulfPair (arr ! i) (arr ! j)"
  have i: "i < length arr" and j: "j < length arr" and ne: "i \<noteq> j"
    using ij by (simp_all add: st)
  have all: "\<forall>a \<in> set arr. \<forall>b \<in> set (blobs a). 1 \<le> mass b"
    using inv by (simp add: engulfInv_def st list_all_iff)
  have pa: "\<forall>x \<in> set (blobs (arr ! i)). 1 \<le> mass x"
    and pb: "\<forall>x \<in> set (blobs (arr ! j)). 1 \<le> mass x"
    using all i j nth_mem by blast+
  have res: "engulfJ i st j
      = (arr[i := fst ?p, j := fst (snd ?p)], tr @ map (\<lambda>e. (i, j, e)) (snd (snd ?p)))"
    using False by (simp add: st engulfJ_def case_prod_beta)
  have "replay (map (\<lambda>e. (i, j, e)) (snd (snd ?p))) (map blobs arr)
      = Some ((map blobs arr)[i := blobs (fst ?p), j := blobs (fst (snd ?p))])"
    using engulfPair_replay [of i j "map blobs arr" "arr ! i" "arr ! j"] ne i j pa pb by simp
  then show ?thesis
    using r unfolding res by (simp add: st replay_append map_update)
qed

lemma engulfJ_fold_replay:
  "engulfInv (\<lambda>b. 1 \<le> mass b) n st \<Longrightarrow> replay (snd st) bss0 = Some (map blobs (fst st)) \<Longrightarrow>
     \<forall>j \<in> set js. i < j \<and> j < length (fst st) \<Longrightarrow>
     replay (snd (foldl (engulfJ i) st js)) bss0 = Some (map blobs (fst (foldl (engulfJ i) st js)))"
proof (induction js arbitrary: st)
  case Nil
  then show ?case by simp
next
  case (Cons j js)
  have s: "engulfInv (\<lambda>b. 1 \<le> mass b) n (engulfJ i st j)"
    "length (fst (engulfJ i st j)) = length (fst st)"
    using engulfJ_inv [of "\<lambda>b. 1 \<le> mass b" n st i j, OF eatBlob_heavy] Cons.prems by simp_all
  have r: "replay (snd (engulfJ i st j)) bss0 = Some (map blobs (fst (engulfJ i st j)))"
    using engulfJ_replay [of n st bss0 i j] Cons.prems by simp
  show ?case
    using Cons.IH [of "engulfJ i st j", OF s(1) r] s(2) Cons.prems by simp
qed

lemma engulfI_replay:
  assumes "engulfInv (\<lambda>b. 1 \<le> mass b) n st" "replay (snd st) bss0 = Some (map blobs (fst st))"
  shows "replay (snd (engulfI st i)) bss0 = Some (map blobs (fst (engulfI st i)))"
proof -
  obtain arr tr where st: "st = (arr, tr)" by (cases st)
  show ?thesis
    using engulfJ_fold_replay [of n st bss0 "[Suc i..<length arr]" i] assms
    by (simp add: st engulfI_def)
qed

lemma engulfI_fold_replay:
  "engulfInv (\<lambda>b. 1 \<le> mass b) n st \<Longrightarrow> replay (snd st) bss0 = Some (map blobs (fst st)) \<Longrightarrow>
     replay (snd (foldl engulfI st is)) bss0 = Some (map blobs (fst (foldl engulfI st is)))"
proof (induction "is" arbitrary: st)
  case Nil
  then show ?case by simp
next
  case (Cons i "is")
  have s: "engulfInv (\<lambda>b. 1 \<le> mass b) n (engulfI st i)"
    using engulfI_inv [of "\<lambda>b. 1 \<le> mass b" n st i, OF eatBlob_heavy] Cons.prems by simp
  show ?case
    using Cons.IH [OF s engulfI_replay [OF Cons.prems]] by simp
qed

lemma engulfAll_replay:
  assumes "list_all (\<lambda>a. list_all (\<lambda>b. 1 \<le> mass b) (blobs a) \<and> (blobs a = [] \<longrightarrow> dead a)) arr"
  shows "replay (snd (engulfAll arr)) (map blobs arr) = Some (map blobs (fst (engulfAll arr)))"
  using engulfI_fold_replay [of "blobCount arr" "(arr, [])" "map blobs arr" "[0..<length arr]"]
    assms
  by (simp add: engulfAll_def engulfInv_def)


text \<open>The phase writes the blobs and the dead flag of an agent only.\<close>

lemma bare_markDead: "bare (markDead a bs) = bare a"
  by (simp add: bare_def markDead_def)

lemma bare_engulfPair:
  "bare (fst (engulfPair A B)) = bare A" "bare (fst (snd (engulfPair A B))) = bare B"
  by (simp_all add: engulfPair_def case_prod_beta bare_markDead)

lemma bare_engulfJ:
  assumes "i < length (fst st)" "j < length (fst st)"
  shows "map bare (fst (engulfJ i st j)) = map bare (fst st)
       \<and> length (fst (engulfJ i st j)) = length (fst st)"
proof -
  obtain arr tr where st: "st = (arr, tr)" by (cases st)
  have a: "bare (arr ! i) = map bare arr ! i" "bare (arr ! j) = map bare arr ! j"
    using assms by (simp_all add: st)
  have "(map bare arr)[i := bare (arr ! i), j := bare (arr ! j)] = map bare arr"
    unfolding a by (simp only: list_update_id)
  then show ?thesis
    by (simp add: st engulfJ_def case_prod_beta map_update bare_engulfPair)
qed

lemma bare_engulfJ_fold:
  "i < length (fst st) \<Longrightarrow> \<forall>j \<in> set js. j < length (fst st) \<Longrightarrow>
     map bare (fst (foldl (engulfJ i) st js)) = map bare (fst st)
     \<and> length (fst (foldl (engulfJ i) st js)) = length (fst st)"
proof (induction js arbitrary: st)
  case Nil
  then show ?case by simp
next
  case (Cons j js)
  have s: "map bare (fst (engulfJ i st j)) = map bare (fst st)"
    "length (fst (engulfJ i st j)) = length (fst st)"
    using bare_engulfJ [of i st j] Cons.prems by simp_all
  show ?case
    using Cons.IH [of "engulfJ i st j"] s Cons.prems by simp
qed

lemma bare_engulfI:
  "map bare (fst (engulfI st i)) = map bare (fst st)
   \<and> length (fst (engulfI st i)) = length (fst st)"
proof (cases "i < length (fst st)")
  case True
  obtain arr tr where st: "st = (arr, tr)" by (cases st)
  show ?thesis
    using bare_engulfJ_fold [of i st "[Suc i..<length arr]"] True
    by (simp add: st engulfI_def)
next
  case False
  then show ?thesis by (simp add: engulfI_def case_prod_beta)
qed

lemma bare_engulfI_fold:
  "map bare (fst (foldl engulfI st is)) = map bare (fst st)
   \<and> length (fst (foldl engulfI st is)) = length (fst st)"
proof (induction "is" arbitrary: st)
  case Nil
  then show ?case by simp
next
  case (Cons i "is")
  show ?case
    using Cons.IH [of "engulfI st i"] bare_engulfI [of st i] by simp
qed

lemma bare_engulfPhase:
  "map (\<lambda>(k, a). (k, bare a)) (agents (engulfPhase rm)) = map (\<lambda>(k, a). (k, bare a)) (agents rm)"
proof -
  define arr where "arr = map snd (agents rm)"
  have z: "zip (map fst m) (map bare (map snd m)) = map (\<lambda>(k, a). (k, bare a)) m"
    for m :: "(string \<times> agent) list"
    by (induction m) auto
  have e: "map bare (fst (engulfAll arr)) = map bare arr"
    and l: "length (fst (engulfAll arr)) = length arr"
    using bare_engulfI_fold [of "(arr, [])" "[0..<length arr]"] by (simp_all add: engulfAll_def)
  have "map (\<lambda>(k, a). (k, bare a)) (zip (map fst (agents rm)) (fst (engulfAll arr)))
      = zip (map fst (agents rm)) (map bare (fst (engulfAll arr)))"
    by (simp add: zip_map2 case_prod_beta)
  also have "\<dots> = zip (map fst (agents rm)) (map bare arr)" by (simp only: e)
  also have "\<dots> = map (\<lambda>(k, a). (k, bare a)) (agents rm)"
    unfolding arr_def by (rule z)
  finally show ?thesis
    by (simp add: engulfPhase_def mapValues_def arr_def)
qed


text \<open>
  C5. In every tick of a room in which an agent is dead exactly when it has no blob and no
  pellet has a negative value, the engulfments of the player-vs-player phase are, one after
  the other, engulfments as the specification describes them, and they make the blob lists
  with which the phase ends out of those with which it starts: each is between two
  different agents; its eater and its eaten blob are the blobs that stand at the recorded
  indices of the two agents' lists at that moment; the eater's radius exceeds the eaten
  blob's radius times 1.12 and the distance of their centres is less than the eater's
  radius minus 0.65 times the eaten blob's radius; the eater's place then holds the eater
  with the gain of the growth formula on the eaten blob's mass times the ratio of the
  eaten to the eater's mass clamped to [0.12, 0.50]; and the eaten blob is gone from its
  agent's list before the next engulfment. The phase changes nothing of an agent but its
  blobs and its dead flag, and after it, as after the whole tick, an agent is dead exactly
  when it has no blob.
\<close>

theorem engulf_phase:
  assumes "tidy (agents rm)" and "list_all (\<lambda>p. 0 \<le> pelv p) (pellets rm)"
  shows "replay (engulfTrace (beforeEngulf now mr rm))
             (map (\<lambda>(k, a). blobs a) (agents (beforeEngulf now mr rm)))
           = Some (map (\<lambda>(k, a). blobs a) (agents (engulfPhase (beforeEngulf now mr rm))))
       \<and> map (\<lambda>(k, a). (k, bare a)) (agents (engulfPhase (beforeEngulf now mr rm)))
           = map (\<lambda>(k, a). (k, bare a)) (agents (beforeEngulf now mr rm))
       \<and> tidy (agents (engulfPhase (beforeEngulf now mr rm)))
       \<and> tidy (agents (tickRoom now mr rm))"
proof -
  define rm1 where "rm1 = beforeEngulf now mr rm"
  define arr where "arr = mapValues (agents rm1)"
  let ?P = "\<lambda>b. 1 \<le> mass b"
  have pel: "\<forall>p \<in> set (pellets rm). 0 \<le> pelv p"
    using assms(2) by (simp add: list_all_iff)
  note ready = beforeEngulf_ready [OF assms(1) pel, of now mr, folded rm1_def]
  have start: "list_all (\<lambda>a. list_all ?P (blobs a) \<and> (blobs a = [] \<longrightarrow> dead a)) arr"
    unfolding list_all_iff
  proof (rule ballI, rule conjI)
    fix a assume "a \<in> set arr"
    then obtain k where ka: "(k, a) \<in> set (agents rm1)"
      by (auto simp: arr_def mapValues_def)
    have t: "dead a \<longleftrightarrow> blobs a = []"
      using ready ka by (auto simp: tidy_def list_all_iff)
    have h: "\<not> dead a \<longrightarrow> (\<forall>b \<in> set (blobs a). 10 / 8 \<le> mass b)"
      using ready ka by (auto simp: heavy_def list_all_iff)
    show "\<forall>b \<in> set (blobs a). 1 \<le> mass b"
    proof
      fix b assume "b \<in> set (blobs a)"
      then have "10 / 8 \<le> mass b" using t h by auto
      then show "1 \<le> mass b" by simp
    qed
    show "blobs a = [] \<longrightarrow> dead a" using t by simp
  qed
  note inv = engulfAll_inv [of ?P arr, OF eatBlob_heavy start]
  have len: "length (fst (engulfAll arr)) = length (map fst (agents rm1))"
    using inv by (simp add: arr_def mapValues_def)
  have vals: "mapValues (agents (engulfPhase rm1)) = fst (engulfAll arr)"
    using len by (simp add: engulfPhase_def mapValues_def arr_def [unfolded mapValues_def])
  have keys: "map (\<lambda>(k, a). (k, bare a)) (agents (engulfPhase rm1))
      = map (\<lambda>(k, a). (k, bare a)) (agents rm1)"
    by (rule bare_engulfPhase)
  have tr: "engulfTrace rm1 = snd (engulfAll arr)"
    by (simp add: engulfTrace_def arr_def)
  have b: "map (\<lambda>(k, a). blobs a) m = map blobs (mapValues m)" for m :: "(string \<times> agent) list"
    by (simp add: mapValues_def case_prod_beta comp_def)
  have 1: "replay (engulfTrace rm1) (map (\<lambda>(k, a). blobs a) (agents rm1))
      = Some (map (\<lambda>(k, a). blobs a) (agents (engulfPhase rm1)))"
    unfolding b vals tr arr_def [symmetric] using start by (rule engulfAll_replay)
  have 3: "tidy (agents (engulfPhase rm1))"
    using ready by (intro engulfPhase_tidy) simp
  have 4: "tidy (agents (tickRoom now mr rm))"
    unfolding tickRoom_def rm1_def [symmetric] using 3 by (rule respawn_tidy)
  show ?thesis
    using 1 keys 3 4 unfolding rm1_def by (intro conjI)
qed


text \<open>
  The room of three humans: in the pair of the second and the third agent, the blob of
  radius 50 eats the blob of radius 14 and is then eaten by the blob of radius 200; the
  second agent is dead after the tick.
\<close>

lemma agents_feast:
  "agents (beforeEngulf 1 (\<lambda>_. 0) feastRoom)
     = [(''c'', agentOf ''c'' False 0 0 [loneD]), (''a'', agentOf ''a'' False 0 0 [midD]),
        (''b'', agentOf ''b'' False 0 0 [hugeD, smallD])]"
proof -
  define rm1 where "rm1 = removeInactive 1 (feastRoom\<lparr>clock := clock feastRoom + DT\<rparr>)"
  have a1: "agents rm1 = agents feastRoom" and v1: "viruses rm1 = []" and p1: "pellets rm1 = []"
    by (simp_all add: rm1_def removeInactive_def feastRoom_def roomOf_def agentOf_def
        inactive_def PLAYER_TTL_def)
  have bot: "botAgent ags pels (agentOf k False 0 0 bs) g mr = (agentOf k False 0 0 bs, g, mr)"
    for ags pels k bs g mr
    by (simp add: botAgent_def agentOf_def)
  have ai: "botAI rm1 mr = (rm1\<lparr>rng := rng rm1\<rparr>, mr)" for mr
    by (simp add: botAI_def botAIstep_def a1 feastRoom_def roomOf_def bot upt_rec
        numeral_3_eq_3)
  have mv0: "moveAgent (agentOf ''c'' False 0 0 [lone0]) = agentOf ''c'' False 0 0 [loneD]"
    by (simp add: moveAgent_def agentOf_def blobAt_def lone0_def loneD_def moveBlob_def
        moveClamp_def knockDecay_def clamp_def WORLD_def DT_def TICK_RATE_def Let_def)
  have mv1: "moveAgent (agentOf ''a'' False 0 0 [mid0]) = agentOf ''a'' False 0 0 [midD]"
    by (simp add: moveAgent_def agentOf_def blobAt_def mid0_def midD_def moveBlob_def
        moveClamp_def knockDecay_def clamp_def WORLD_def DT_def TICK_RATE_def Let_def)
  have mv2: "moveAgent (agentOf ''b'' False 0 0 [huge0, small0])
      = agentOf ''b'' False 0 0 [hugeD, smallD]"
    by (simp add: moveAgent_def agentOf_def blobAt_def huge0_def small0_def hugeD_def
        smallD_def moveBlob_def moveClamp_def knockDecay_def clamp_def WORLD_def DT_def
        TICK_RATE_def Let_def)
  have d: "\<not> dead (agentOf k False 0 0 bs)" for k bs by (simp add: agentOf_def)
  have bl: "blobs (agentOf k False 0 0 bs) = bs" for k bs by (simp add: agentOf_def)
  have upd: "(agentOf k False 0 0 bs)\<lparr>blobs := bs'\<rparr> = agentOf k False 0 0 bs'" for k bs bs'
    by (simp add: agentOf_def)
  show ?thesis
    unfolding beforeEngulf_def Let_def rm1_def [symmetric] ai
    by (simp add: virusPhase_def viruses_refillPellets agents_refillPellets eatPellets_def
        movement_def a1 v1 p1 feastRoom_def roomOf_def mv0 mv1 mv2 d bl upd blobEats_def
        One_nat_def numeral_2_eq_2)
qed

lemma engulfs_feast:
  "\<not> engulfs loneD midD" "\<not> engulfs midD loneD" "\<not> engulfs loneD hugeD"
  "\<not> engulfs hugeD loneD" "\<not> engulfs loneD smallD" "\<not> engulfs smallD loneD"
  "engulfs midD smallD" "\<not> engulfs fedD hugeD" "engulfs hugeD fedD"
  by (simp_all add: engulfs_def canEat_def canEngulf_def loneD_def midD_def hugeD_def
      smallD_def fedD_def blobAt_def hypot_axis)

lemma eatBlob_feast: "eatBlob midD smallD = fedD" "eatBlob hugeD fedD = fatD"
  by (simp_all add: eatBlob_def grow_def clamp_def midD_def hugeD_def smallD_def fedD_def
      fatD_def blobAt_def Let_def)

lemma engulfBlobs_feast:
  "engulfBlobs [loneD] [midD] = ([loneD], [midD], [])"
  "engulfBlobs [loneD] [hugeD, smallD] = ([loneD], [hugeD, smallD], [])"
  "engulfBlobs [midD] [hugeD, smallD]
     = ([], [fatD], [Engulfment True 0 1 midD smallD fedD,
                     Engulfment False 0 0 hugeD fedD fatD])"
  "engulfBlobs [] bs = ([], bs, [])"
  by (simp_all add: engulfBlobs_def numeral_2_eq_2 engulfs_feast eatBlob_feast removeAt_def
      Let_def)

lemma engulfAll_feast:
  "engulfAll [agentOf ''c'' False 0 0 [loneD], agentOf ''a'' False 0 0 [midD],
              agentOf ''b'' False 0 0 [hugeD, smallD]]
     = ([agentOf ''c'' False 0 0 [loneD], (agentOf ''a'' False 0 0 [])\<lparr>dead := True\<rparr>,
         agentOf ''b'' False 0 0 [fatD]],
        [(1, 2, Engulfment True 0 1 midD smallD fedD),
         (1, 2, Engulfment False 0 0 hugeD fedD fatD)])"
  by (simp add: engulfAll_def engulfI_def engulfJ_def engulfPair_def engulfBlobs_feast
      markDead_def agentOf_def upt_rec numeral_3_eq_3 numeral_2_eq_2)

theorem engulf_phase_witness:
  "tidy (agents feastRoom) \<and> list_all (\<lambda>p. 0 \<le> pelv p) (pellets feastRoom)
   \<and> engulfTrace (beforeEngulf 1 (\<lambda>_. 0) feastRoom)
       = [(1, 2, Engulfment True 0 1 midD smallD fedD),
          (1, 2, Engulfment False 0 0 hugeD fedD fatD)]
   \<and> replay [(1, 2, Engulfment True 0 1 midD smallD fedD),
              (1, 2, Engulfment False 0 0 hugeD fedD fatD)]
         [[loneD], [midD], [hugeD, smallD]]
       = Some [[loneD], [], [fatD]]
   \<and> mass fedD = mass midD + 1.2 \<and> mass fatD = mass hugeD + 12.144
   \<and> map (\<lambda>(k, a). (k, dead a, blobs a)) (agents (tickRoom 1 (\<lambda>_. 0) feastRoom))
       = [(''c'', False, [loneD]), (''a'', True, []), (''b'', False, [fatD])]"
proof -
  have t: "tidy (agents feastRoom)"
    by (simp add: tidy_def feastRoom_def roomOf_def agentOf_def)
  have p: "list_all (\<lambda>p. 0 \<le> pelv p) (pellets feastRoom)"
    by (simp add: feastRoom_def roomOf_def)
  have tr: "engulfTrace (beforeEngulf 1 (\<lambda>_. 0) feastRoom)
       = [(1, 2, Engulfment True 0 1 midD smallD fedD),
          (1, 2, Engulfment False 0 0 hugeD fedD fatD)]"
    by (simp add: engulfTrace_def agents_feast mapValues_def engulfAll_feast)
  have ph: "agents (engulfPhase (beforeEngulf 1 (\<lambda>_. 0) feastRoom))
      = [(''c'', agentOf ''c'' False 0 0 [loneD]),
         (''a'', (agentOf ''a'' False 0 0 [])\<lparr>dead := True\<rparr>),
         (''b'', agentOf ''b'' False 0 0 [fatD])]"
    by (simp add: engulfPhase_def agents_feast mapValues_def engulfAll_feast)
  note E = engulf_phase [OF t p, of 1 "\<lambda>_. 0"]
  have 1: "replay [(1, 2, Engulfment True 0 1 midD smallD fedD),
              (1, 2, Engulfment False 0 0 hugeD fedD fatD)]
         [[loneD], [midD], [hugeD, smallD]]
       = Some [[loneD], [], [fatD]]"
    using E [THEN conjunct1] unfolding tr ph agents_feast by (simp add: agentOf_def)
  have m: "mass fedD = mass midD + 1.2" "mass fatD = mass hugeD + 12.144"
    by (simp_all add: fedD_def fatD_def midD_def hugeD_def blobAt_def)
  have 4: "map (\<lambda>(k, a). (k, dead a, blobs a)) (agents (tickRoom 1 (\<lambda>_. 0) feastRoom))
       = [(''c'', False, [loneD]), (''a'', True, []), (''b'', False, [fatD])]"
    unfolding tickRoom_def
    by (simp add: respawn_def respawnStep_def ph mapValues_def agentOf_def)
  show ?thesis
    using t p tr 1 m 4 by (intro conjI)
qed

end
